theory Spec2Isabelle
  imports Main "HOL-Library.AList" "HOL-Library.Monad_Syntax"
begin

unbundle bit_operations_syntax

section \<open>Values\<close>

text \<open>
  \<^verbatim>\<open>store.Value\<close> is an interface with one method \<^verbatim>\<open>Len() int\<close>; the only implementation
  in the repository is \<^verbatim>\<open>ByteView\<close> (byteview.go), a struct around a byte slice whose
  \<^verbatim>\<open>Len\<close> is the length of the slice. A \<^verbatim>\<open>nil\<close> interface value is \<open>None\<close> of
  \<open>Value option\<close>.
\<close>

datatype Value = ByteView (bytes: string)

definition Len :: "Value \<Rightarrow> int" where
  "Len v = int (length (bytes v))"

section \<open>The LRU store (package store, type lruCache)\<close>

text \<open>
  The source file of \<^verbatim>\<open>lruCache\<close> has a few identifiers that do not resolve
  (\<^verbatim>\<open>c.list.Delete(elem)\<close>, \<^verbatim>\<open>c.expirs\<close>, \<^verbatim>\<open>entry,value\<close>, \<^verbatim>\<open>len(entry.value)\<close>,
  \<^verbatim>\<open>go c.Delete()\<close>); they are read as \<^verbatim>\<open>c.list.Remove(elem)\<close>, \<^verbatim>\<open>c.expires\<close>,
  \<^verbatim>\<open>entry.value\<close>, \<^verbatim>\<open>entry.value.Len()\<close> and \<^verbatim>\<open>go c.Delete(key)\<close>.

  \<^item> \<^verbatim>\<open>container/list\<close> elements are heap objects: \<open>elems\<close> maps an element's address to
    the entry it holds, \<open>lst\<close> is the order of the elements on the list, Front first
    (the LRU end) and Back last (the MRU end).
  \<^item> Go maps are association lists with distinct keys, read with \<open>map_of\<close>.
  \<^item> \<^verbatim>\<open>time.Time\<close> and \<^verbatim>\<open>time.Duration\<close> are integers (nanoseconds); every
    \<^verbatim>\<open>time.Now()\<close> is an argument \<open>now\<close> of the operation. \<^verbatim>\<open>SetWithExpiration\<close> and the
    \<^verbatim>\<open>evict()\<close> it calls read the clock once each; both readings are \<open>now\<close>.
  \<^item> \<^verbatim>\<open>int64\<close> byte counts are \<open>int\<close>: the sums of lengths of resident keys and values
    stay far below \<open>2 ^ 63\<close>.
  \<^item> The operations are modelled one at a time, so the mutex \<^verbatim>\<open>c.mu\<close> is free when an
    operation starts unless an earlier operation has returned without releasing it;
    \<open>mu_locked\<close> says so. An operation that has to acquire a held mutex never returns:
    the result of every operation is an option, \<open>None\<close> for a call that blocks forever.
  \<^item> \<^verbatim>\<open>onEvicted\<close> is a user callback; \<open>hasOnEvicted\<close> says whether one is configured and
    \<open>onEvictedCalls\<close> records the calls made to it.
\<close>

record lruEntry =
  entry_key :: string
  entry_value :: Value

record lruCache =
  lst :: "nat list"
  elems :: "(nat \<times> lruEntry) list"
  items :: "(string \<times> nat) list"
  expires :: "(string \<times> int) list"
  maxBytes :: int
  usedBytes :: int
  hasOnEvicted :: bool
  onEvictedCalls :: "(string \<times> Value) list"
  mu_locked :: bool

text \<open>\<^verbatim>\<open>newLRUCache\<close>: empty list and maps, \<^verbatim>\<open>usedBytes\<close> zero, the mutex free.\<close>

definition newLRUCache :: "int \<Rightarrow> bool \<Rightarrow> lruCache" where
  "newLRUCache mb cb =
     \<lparr>lst = [], elems = [], items = [], expires = [], maxBytes = mb, usedBytes = 0,
      hasOnEvicted = cb, onEvictedCalls = [], mu_locked = False\<rparr>"

text \<open>\<^verbatim>\<open>list.MoveToBack(e)\<close>: nothing happens when \<open>e\<close> is not on the list.\<close>

definition MoveToBack :: "nat list \<Rightarrow> nat \<Rightarrow> nat list" where
  "MoveToBack l e = (if e \<in> set l then filter (\<lambda>x. x \<noteq> e) l @ [e] else l)"

text \<open>\<^verbatim>\<open>list.PushBack(v)\<close> allocates a fresh element; its address is the first unused one.\<close>

definition freshElem :: "(nat \<times> lruEntry) list \<Rightarrow> nat" where
  "freshElem es = Suc (fold max (map fst es) 0)"

text \<open>\<^verbatim>\<open>removeElement(elem)\<close>; the entry behind \<open>elem\<close> is read from the heap.\<close>

definition removeElement :: "lruCache \<Rightarrow> nat \<Rightarrow> lruCache" where
  "removeElement c elem =
     (case map_of (elems c) elem of
        None \<Rightarrow> c
      | Some entry \<Rightarrow>
          c\<lparr>lst := filter (\<lambda>x. x \<noteq> elem) (lst c),
            items := AList.delete (entry_key entry) (items c),
            expires := AList.delete (entry_key entry) (expires c),
            usedBytes := usedBytes c - (int (length (entry_key entry)) + Len (entry_value entry)),
            onEvictedCalls :=
              (if hasOnEvicted c then onEvictedCalls c @ [(entry_key entry, entry_value entry)]
               else onEvictedCalls c)\<rparr>)"

text \<open>\<^verbatim>\<open>Delete(key)\<close>: \<^verbatim>\<open>c.mu.Lock()\<close>, released by the deferred \<^verbatim>\<open>Unlock\<close>.\<close>

definition lru_Delete :: "lruCache \<Rightarrow> string \<Rightarrow> (lruCache \<times> bool) option" where
  "lru_Delete c k =
     (if mu_locked c then None
      else
        (case map_of (items c) k of
           Some elem \<Rightarrow> Some (removeElement c elem, True)
         | None \<Rightarrow> Some (c, False)))"

text \<open>
  \<^verbatim>\<open>evict()\<close>, first loop: every key of \<^verbatim>\<open>expires\<close> whose time has passed and that is
  in \<^verbatim>\<open>items\<close> is removed. The loop runs over the keys the map held on entry; removing
  an element deletes only its own key from \<^verbatim>\<open>expires\<close>.
\<close>

definition evictExpiredStep :: "int \<Rightarrow> string \<times> int \<Rightarrow> lruCache \<Rightarrow> lruCache" where
  "evictExpiredStep now ke c =
     (if now > snd ke then
        (case map_of (items c) (fst ke) of
           Some elem \<Rightarrow> removeElement c elem
         | None \<Rightarrow> c)
      else c)"

definition evictExpired :: "lruCache \<Rightarrow> int \<Rightarrow> lruCache" where
  "evictExpired c now = fold (evictExpiredStep now) (expires c) c"

text \<open>
  \<^verbatim>\<open>evict()\<close>, second loop:
  \<^verbatim>\<open>for c.maxBytes>0 && c.usedBytes>c.maxBytes && c.list.Len()>0 { removeElement(Front) }\<close>.
\<close>

function evictLRU :: "lruCache \<Rightarrow> lruCache" where
  "evictLRU c =
     (if maxBytes c > 0 \<and> usedBytes c > maxBytes c \<and> length (lst c) > 0 then
        (case map_of (elems c) (hd (lst c)) of
           None \<Rightarrow> c
         | Some entry \<Rightarrow> evictLRU (removeElement c (hd (lst c))))
      else c)"
  by pat_completeness auto
termination
proof (relation "measure (\<lambda>c. length (lst c))")
  show "wf (measure (\<lambda>c. length (lst c)))" by simp
next
  fix c :: lruCache and x2
  assume a: "0 < maxBytes c \<and> maxBytes c < usedBytes c \<and> 0 < length (lst c)"
     and b: "map_of (elems c) (hd (lst c)) = Some x2"
  from a obtain x xs where l: "lst c = x # xs" by (cases "lst c") auto
  have "length (filter (\<lambda>y. y \<noteq> x) xs) < Suc (length xs)"
    by (simp add: less_Suc_eq_le)
  with l b show "(removeElement c (hd (lst c)), c) \<in> measure (\<lambda>c. length (lst c))"
    by (simp add: removeElement_def)
qed

declare evictLRU.simps [simp del]

definition evict :: "lruCache \<Rightarrow> int \<Rightarrow> lruCache" where
  "evict c now = evictLRU (evictExpired c now)"

text \<open>
  \<^verbatim>\<open>SetWithExpiration(key, value, expiration)\<close>. A nil value deletes the key. Otherwise
  \<^verbatim>\<open>c.mu.Lock()\<close>, released by the deferred \<^verbatim>\<open>Unlock\<close>. The branch for a key already in
  \<^verbatim>\<open>items\<close> returns before \<^verbatim>\<open>evict()\<close>.
\<close>

definition lru_SetWithExpiration ::
  "lruCache \<Rightarrow> string \<Rightarrow> Value option \<Rightarrow> int \<Rightarrow> int \<Rightarrow> lruCache option" where
  "lru_SetWithExpiration c k vo expiration now =
     (case vo of
        None \<Rightarrow> map_option fst (lru_Delete c k)
      | Some v \<Rightarrow>
          if mu_locked c then None
          else Some
          (let c1 = (if expiration > 0
                     then c\<lparr>expires := AList.update k (now + expiration) (expires c)\<rparr>
                     else c\<lparr>expires := AList.delete k (expires c)\<rparr>)
           in case map_of (items c1) k of
                Some elem \<Rightarrow>
                  (case map_of (elems c1) elem of
                     None \<Rightarrow> c1
                   | Some oldEntry \<Rightarrow>
                       c1\<lparr>usedBytes := usedBytes c1 + (Len v - Len (entry_value oldEntry)),
                          elems := AList.update elem (oldEntry\<lparr>entry_value := v\<rparr>) (elems c1),
                          lst := MoveToBack (lst c1) elem\<rparr>)
              | None \<Rightarrow>
                  (let elem = freshElem (elems c1);
                       c2 = c1\<lparr>elems := AList.update elem \<lparr>entry_key = k, entry_value = v\<rparr> (elems c1),
                               lst := lst c1 @ [elem],
                               items := AList.update k elem (items c1),
                               usedBytes := usedBytes c1 + (int (length k) + Len v)\<rparr>
                   in evict c2 now)))"

text \<open>\<^verbatim>\<open>Set(key, value)\<close> is \<^verbatim>\<open>SetWithExpiration(key, value, 0)\<close>.\<close>

definition lru_Set :: "lruCache \<Rightarrow> string \<Rightarrow> Value option \<Rightarrow> int \<Rightarrow> lruCache option" where
  "lru_Set c k vo now = lru_SetWithExpiration c k vo 0 now"

text \<open>
  \<^verbatim>\<open>Get(key)\<close>. The result is the store, the two returned values and the key of the
  \<^verbatim>\<open>Delete\<close> that the expired branch starts with \<^verbatim>\<open>go\<close> (if any). The miss and the
  expired branch release the read lock they took. The hit branch releases the read lock,
  takes \<^verbatim>\<open>c.mu.Lock()\<close> for the move and returns without \<^verbatim>\<open>Unlock\<close>: the mutex stays
  held. The last \<^verbatim>\<open>return\<close> of the source is \<^verbatim>\<open>return value,false\<close>.
\<close>

definition lru_Get ::
  "lruCache \<Rightarrow> string \<Rightarrow> int
     \<Rightarrow> (lruCache \<times> (Value option \<times> bool) \<times> string option) option" where
  "lru_Get c k now =
     (if mu_locked c then None
      else
        (case map_of (items c) k of
           None \<Rightarrow> Some (c, (None, False), None)
         | Some elem \<Rightarrow>
             (case map_of (expires c) k of
                Some expTime \<Rightarrow>
                  if now > expTime then Some (c, (None, False), Some k)
                  else Some (c\<lparr>lst := MoveToBack (lst c) elem, mu_locked := True\<rparr>,
                             (map_option entry_value (map_of (elems c) elem), False), None)
              | None \<Rightarrow>
                  Some (c\<lparr>lst := MoveToBack (lst c) elem, mu_locked := True\<rparr>,
                        (map_option entry_value (map_of (elems c) elem), False), None))))"

section \<open>The LRU-2 store (store/lru2.go)\<close>

text \<open>
  \<^item> \<^verbatim>\<open>uint16\<close> indices and \<^verbatim>\<open>int64\<close> times are \<open>nat\<close> and \<open>int\<close>; the places where
    the source's arithmetic can wrap (\<^verbatim>\<open>cap+1\<close>, \<^verbatim>\<open>c.last++\<close>, \<^verbatim>\<open>idx-1\<close>,
    \<^verbatim>\<open>Now() + expiration\<close>, the BKDR hash) have the wrap-around written out.
  \<^item> An index out of range panics in Go: every operation returns \<open>None\<close> for a panic.
  \<^item> \<^verbatim>\<open>[2]uint16\<close> is a pair; the package variables \<^verbatim>\<open>p = 0\<close> and \<^verbatim>\<open>n = 1\<close>
    (\<open>link_p\<close> and \<open>link_n\<close>) select its components.
  \<^item> The fields \<^verbatim>\<open>k\<close>, \<^verbatim>\<open>v\<close> of \<^verbatim>\<open>node\<close> and \<^verbatim>\<open>m\<close>, \<^verbatim>\<open>last\<close> of \<^verbatim>\<open>cache\<close> are
    \<open>node_k\<close>, \<open>node_v\<close>, \<open>cache_m\<close>, \<open>cache_last\<close>.
  \<^item> The virtual clock \<^verbatim>\<open>Now()\<close> is an argument of every operation that reads it.
  \<^item> The shard mutexes are left out: the operations are modelled one at a time.
\<close>

record node =
  node_k :: string
  node_v :: "Value option"
  expireAt :: int

record cache =
  dlnk :: "(nat \<times> nat) list"
  cache_m :: "node list"
  hmap :: "(string \<times> nat) list"
  cache_last :: nat

definition link_p :: nat where "link_p = 0"
definition link_n :: nat where "link_n = 1"

text \<open>\<^verbatim>\<open>hashBKRD\<close>: \<^verbatim>\<open>hash = hash*131 + int32(s[i])\<close> in \<^verbatim>\<open>int32\<close>.\<close>

definition wrap32 :: "int \<Rightarrow> int" where
  "wrap32 x = (x + 2 ^ 31) mod 2 ^ 32 - 2 ^ 31"

definition wrap64 :: "int \<Rightarrow> int" where
  "wrap64 x = (x + 2 ^ 63) mod 2 ^ 64 - 2 ^ 63"

definition hashBKRD :: "string \<Rightarrow> int" where
  "hashBKRD s = fold (\<lambda>ch hash. wrap32 (hash * 131 + of_char ch)) s 0"

text \<open>\<^verbatim>\<open>maskOfNextPowOf2\<close> on \<^verbatim>\<open>uint16\<close>.\<close>

definition maskOfNextPowOf2 :: "nat \<Rightarrow> nat" where
  "maskOfNextPowOf2 cap =
     (if cap > 0 \<and> cap AND (cap - 1) = 0 then cap - 1
      else let c1 = cap OR drop_bit 1 cap;
               c2 = c1 OR drop_bit 2 c1;
               c3 = c2 OR drop_bit 4 c2
           in c3 OR drop_bit 8 c3)"

text \<open>\<^verbatim>\<open>Create(cap)\<close>: \<^verbatim>\<open>cap+1\<close> links (the sum is a \<^verbatim>\<open>uint16\<close>), \<^verbatim>\<open>cap\<close> zero nodes.\<close>

definition Create :: "nat \<Rightarrow> cache" where
  "Create cap =
     \<lparr>dlnk = replicate ((cap + 1) mod 65536) (0, 0),
      cache_m = replicate cap \<lparr>node_k = [], node_v = None, expireAt = 0\<rparr>,
      hmap = [],
      cache_last = 0\<rparr>"

text \<open>Reading and writing \<^verbatim>\<open>dlnk[i][d]\<close> and \<^verbatim>\<open>m[idx-1]\<close>, with the bounds checks of Go.\<close>

definition rd :: "(nat \<times> nat) list \<Rightarrow> nat \<Rightarrow> nat \<Rightarrow> nat option" where
  "rd dl i d =
     (if i < length dl then Some (if d = 0 then fst (dl ! i) else snd (dl ! i)) else None)"

definition wr :: "(nat \<times> nat) list \<Rightarrow> nat \<Rightarrow> nat \<Rightarrow> nat \<Rightarrow> (nat \<times> nat) list option" where
  "wr dl i d x =
     (if i < length dl
      then Some (dl[i := (if d = 0 then (x, snd (dl ! i)) else (fst (dl ! i), x))])
      else None)"

definition node_at :: "cache \<Rightarrow> nat \<Rightarrow> node option" where
  "node_at c idx =
     (if 1 \<le> idx \<and> idx \<le> length (cache_m c) then Some (cache_m c ! (idx - 1)) else None)"

definition node_set :: "cache \<Rightarrow> nat \<Rightarrow> node \<Rightarrow> cache option" where
  "node_set c idx nd =
     (if 1 \<le> idx \<and> idx \<le> length (cache_m c)
      then Some (c\<lparr>cache_m := (cache_m c)[idx - 1 := nd]\<rparr>)
      else None)"

text \<open>\<^verbatim>\<open>adjust(idx, f, t)\<close>: the six assignments, in the order of the source.\<close>

definition adjust :: "cache \<Rightarrow> nat \<Rightarrow> nat \<Rightarrow> nat \<Rightarrow> cache option" where
  "adjust c idx f t =
     do {
       a \<leftarrow> rd (dlnk c) idx f;
       if a \<noteq> 0 then
         do {
           x1 \<leftarrow> rd (dlnk c) idx t;
           y1 \<leftarrow> rd (dlnk c) idx f;
           d1 \<leftarrow> wr (dlnk c) x1 f y1;
           x2 \<leftarrow> rd d1 idx f;
           y2 \<leftarrow> rd d1 idx t;
           d2 \<leftarrow> wr d1 x2 t y2;
           d3 \<leftarrow> wr d2 idx f 0;
           y4 \<leftarrow> rd d3 0 t;
           d4 \<leftarrow> wr d3 idx t y4;
           x5 \<leftarrow> rd d4 0 t;
           d5 \<leftarrow> wr d4 x5 f idx;
           d6 \<leftarrow> wr d5 0 t idx;
           Some (c\<lparr>dlnk := d6\<rparr>)
         }
       else Some c
     }"

text \<open>
  \<^verbatim>\<open>put\<close>: the result is the cache, the returned status and the call made to
  \<^verbatim>\<open>onEvicted\<close> (if any); \<open>cb\<close> says whether \<^verbatim>\<open>onEvicted\<close> is not nil.
\<close>

definition put ::
  "cache \<Rightarrow> string \<Rightarrow> Value option \<Rightarrow> int \<Rightarrow> bool
     \<Rightarrow> (cache \<times> nat \<times> (string \<times> Value option) option) option" where
  "put c ky vl ex cb =
     (case map_of (hmap c) ky of
        Some idx \<Rightarrow>
          do {
            old \<leftarrow> node_at c idx;
            c1 \<leftarrow> node_set c idx (old\<lparr>node_v := vl, expireAt := ex\<rparr>);
            c2 \<leftarrow> adjust c1 idx link_p link_n;
            Some (c2, 0, None)
          }
      | None \<Rightarrow>
          if cache_last c = length (cache_m c) then
            do {
              tl \<leftarrow> rd (dlnk c) 0 link_p;
              tail \<leftarrow> node_at c tl;
              let ev = (if cb \<and> expireAt tail > 0
                        then Some (node_k tail, node_v tail) else None);
              let c1 = c\<lparr>hmap := AList.delete (node_k tail) (hmap c)\<rparr>;
              c2 \<leftarrow> node_set (c1\<lparr>hmap := AList.update ky tl (hmap c1)\<rparr>) tl
                      \<lparr>node_k = ky, node_v = vl, expireAt = ex\<rparr>;
              tl2 \<leftarrow> rd (dlnk c2) 0 link_p;
              c3 \<leftarrow> adjust c2 tl2 link_p link_n;
              Some (c3, 1, ev)
            }
          else
            do {
              let l = (cache_last c + 1) mod 65536;
              let c1 = c\<lparr>cache_last := l\<rparr>;
              d1 \<leftarrow> (if length (hmap c1) \<le> 0 then wr (dlnk c1) 0 link_p l
                     else do { h \<leftarrow> rd (dlnk c1) 0 link_n; wr (dlnk c1) h link_p l });
              c2 \<leftarrow> node_set (c1\<lparr>dlnk := d1\<rparr>) l \<lparr>node_k = ky, node_v = vl, expireAt = ex\<rparr>;
              h2 \<leftarrow> rd (dlnk c2) 0 link_n;
              d2 \<leftarrow> (if l < length (dlnk c2) then Some ((dlnk c2)[l := (0, h2)]) else None);
              d3 \<leftarrow> wr d2 0 link_n l;
              Some (c2\<lparr>dlnk := d3, hmap := AList.update ky l (hmap c2)\<rparr>, 1, None)
            })"

text \<open>
  \<^verbatim>\<open>get\<close> and \<^verbatim>\<open>del\<close>. The \<^verbatim>\<open>*node\<close> they return is the slot as it is when they return;
  the callers read it before anything else writes that slot.
\<close>

definition get :: "cache \<Rightarrow> string \<Rightarrow> (cache \<times> node option \<times> nat) option" where
  "get c ky =
     (case map_of (hmap c) ky of
        Some idx \<Rightarrow>
          do {
            c1 \<leftarrow> adjust c idx link_p link_n;
            nd \<leftarrow> node_at c1 idx;
            Some (c1, Some nd, 1)
          }
      | None \<Rightarrow> Some (c, None, 0))"

definition del :: "cache \<Rightarrow> string \<Rightarrow> (cache \<times> node option \<times> nat \<times> int) option" where
  "del c ky =
     (case map_of (hmap c) ky of
        Some idx \<Rightarrow>
          do {
            old \<leftarrow> node_at c idx;
            if expireAt old > 0 then
              do {
                let e = expireAt old;
                c1 \<leftarrow> node_set c idx (old\<lparr>expireAt := 0\<rparr>);
                c2 \<leftarrow> adjust c1 idx link_n link_p;
                nd \<leftarrow> node_at c2 idx;
                Some (c2, Some nd, 1, e)
              }
            else Some (c, None, 0, 0)
          }
      | None \<Rightarrow> Some (c, None, 0, 0))"


text \<open>
  \<^verbatim>\<open>lru2Store\<close>: one pair of caches (level 0, the admission level, and level 1, the main
  level) for each shard. \<open>lru2_hasOnEvicted\<close> says whether \<^verbatim>\<open>onEvicted\<close> is not nil and
  \<open>lru2_onEvictedCalls\<close> records the calls made to it.
\<close>

record lru2Store =
  caches :: "(cache \<times> cache) list"
  mask :: int
  lru2_hasOnEvicted :: bool
  lru2_onEvictedCalls :: "(string \<times> Value option) list"

text \<open>
  \<^verbatim>\<open>newLRU2Cache(opts)\<close>, with the defaults for zero options; the ticker and the
  cleanup goroutine are left out. The number of shards is \<^verbatim>\<open>mask+1\<close> computed in
  \<^verbatim>\<open>uint16\<close>: for a mask of 65535 it is 0.
\<close>

definition newLRU2Cache :: "nat \<Rightarrow> nat \<Rightarrow> nat \<Rightarrow> bool \<Rightarrow> lru2Store" where
  "newLRU2Cache BucketCount CapPerBucket Level2Cap cb =
     (let bc = (if BucketCount = 0 then 16 else BucketCount);
          c0 = (if CapPerBucket = 0 then 1024 else CapPerBucket);
          c1 = (if Level2Cap = 0 then 1024 else Level2Cap);
          msk = maskOfNextPowOf2 bc
      in \<lparr>caches = replicate ((msk + 1) mod 65536) (Create c0, Create c1),
          mask = int msk,
          lru2_hasOnEvicted = cb,
          lru2_onEvictedCalls = []\<rparr>)"

text \<open>\<^verbatim>\<open>s.caches[idx]\<close> for an \<^verbatim>\<open>int32\<close> index.\<close>

definition shard :: "lru2Store \<Rightarrow> int \<Rightarrow> (cache \<times> cache) option" where
  "shard s idx =
     (if 0 \<le> idx \<and> nat idx < length (caches s) then Some (caches s ! nat idx) else None)"

definition set_shard :: "lru2Store \<Rightarrow> int \<Rightarrow> cache \<times> cache \<Rightarrow> lru2Store" where
  "set_shard s idx sh = s\<lparr>caches := (caches s)[nat idx := sh]\<rparr>"

definition shard_index :: "lru2Store \<Rightarrow> string \<Rightarrow> int" where
  "shard_index s ky = hashBKRD ky AND mask s"

text \<open>\<^verbatim>\<open>delete(key, idx)\<close>.\<close>

definition lru2_delete :: "lru2Store \<Rightarrow> string \<Rightarrow> int \<Rightarrow> (lru2Store \<times> bool) option" where
  "lru2_delete s ky idx =
     do {
       sh \<leftarrow> shard s idx;
       (c0, n1, s1, e1) \<leftarrow> del (fst sh) ky;
       (c1, n2, s2, e2) \<leftarrow> del (snd sh) ky;
       let deleted = (s1 > 0 \<or> s2 > 0);
       let calls =
         (if deleted \<and> lru2_hasOnEvicted s then
            (case Option.bind n1 node_v of
               Some v1 \<Rightarrow> [(ky, Some v1)]
             | None \<Rightarrow>
                 (case Option.bind n2 node_v of
                    Some v2 \<Rightarrow> [(ky, Some v2)]
                  | None \<Rightarrow> []))
          else []);
       Some ((set_shard s idx (c0, c1))
               \<lparr>lru2_onEvictedCalls := lru2_onEvictedCalls s @ calls\<rparr>, deleted)
     }"

text \<open>\<^verbatim>\<open>Delete(key)\<close>.\<close>

definition lru2_Delete :: "lru2Store \<Rightarrow> string \<Rightarrow> (lru2Store \<times> bool) option" where
  "lru2_Delete s ky = lru2_delete s ky (shard_index s ky)"

text \<open>\<^verbatim>\<open>_get(key, idx, level)\<close>; \<open>now\<close> is what its own \<^verbatim>\<open>Now()\<close> reads.\<close>

definition lru2_get ::
  "lru2Store \<Rightarrow> string \<Rightarrow> int \<Rightarrow> nat \<Rightarrow> int \<Rightarrow> (lru2Store \<times> node option \<times> nat) option" where
  "lru2_get s ky idx level now =
     do {
       sh \<leftarrow> shard s idx;
       c \<leftarrow> (if level = 0 then Some (fst sh) else if level = 1 then Some (snd sh) else None);
       (c', nd, st) \<leftarrow> get c ky;
       let s' = set_shard s idx (if level = 0 then (c', snd sh) else (fst sh, c'));
       (case nd of
          Some x \<Rightarrow>
            if st > 0 then
              (if expireAt x \<le> 0 \<or> now \<ge> expireAt x then Some (s', None, 0)
               else Some (s', Some x, st))
            else Some (s', None, 0)
        | None \<Rightarrow> Some (s', None, 0))
     }"

text \<open>
  \<^verbatim>\<open>Get(key)\<close>; \<open>now\<close> is the \<^verbatim>\<open>currentTime\<close> read at its start and \<open>now2\<close> the clock
  that \<^verbatim>\<open>_get\<close> reads.
\<close>

definition lru2_Get ::
  "lru2Store \<Rightarrow> string \<Rightarrow> int \<Rightarrow> int \<Rightarrow> (lru2Store \<times> Value option \<times> bool) option" where
  "lru2_Get s ky now now2 =
     do {
       let idx = shard_index s ky;
       sh \<leftarrow> shard s idx;
       (c0, n1, status1, ex) \<leftarrow> del (fst sh) ky;
       let s1 = set_shard s idx (c0, snd sh);
       if status1 > 0 then
         (if ex > 0 \<and> now \<ge> ex then
            do { (s2, d) \<leftarrow> lru2_delete s1 ky idx; Some (s2, None, False) }
          else
            do {
              (c1, st, ev) \<leftarrow> put (snd sh) ky (Option.bind n1 node_v) ex (lru2_hasOnEvicted s);
              Some ((set_shard s idx (c0, c1))
                      \<lparr>lru2_onEvictedCalls :=
                         lru2_onEvictedCalls s @ (case ev of None \<Rightarrow> [] | Some x \<Rightarrow> [x])\<rparr>,
                    Option.bind n1 node_v, True)
            })
       else
         do {
           (s2, n2, status2) \<leftarrow> lru2_get s1 ky idx 1 now2;
           (case n2 of
              Some x \<Rightarrow>
                if status2 > 0 then
                  (if expireAt x > 0 \<and> now \<ge> expireAt x then
                     do { (s3, d) \<leftarrow> lru2_delete s2 ky idx; Some (s3, None, False) }
                   else Some (s2, node_v x, True))
                else Some (s2, None, False)
            | None \<Rightarrow> Some (s2, None, False))
         }
     }"

text \<open>
  \<^verbatim>\<open>SetWithExpiration(key, value, expiration)\<close> and \<^verbatim>\<open>Set(key, value)\<close>: the entry is put
  into level 0 of its shard.
\<close>

definition lru2_SetWithExpiration ::
  "lru2Store \<Rightarrow> string \<Rightarrow> Value option \<Rightarrow> int \<Rightarrow> int \<Rightarrow> lru2Store option" where
  "lru2_SetWithExpiration s ky vl expiration now =
     do {
       let ex = (if expiration > 0 then wrap64 (now + expiration) else 0);
       let idx = shard_index s ky;
       sh \<leftarrow> shard s idx;
       (c0, st, ev) \<leftarrow> put (fst sh) ky vl ex (lru2_hasOnEvicted s);
       Some ((set_shard s idx (c0, snd sh))
               \<lparr>lru2_onEvictedCalls :=
                  lru2_onEvictedCalls s @ (case ev of None \<Rightarrow> [] | Some x \<Rightarrow> [x])\<rparr>)
     }"

definition lru2_Set :: "lru2Store \<Rightarrow> string \<Rightarrow> Value option \<Rightarrow> int \<Rightarrow> lru2Store option" where
  "lru2_Set s ky vl now = lru2_SetWithExpiration s ky vl 9999999999999999 now"

text \<open>
  The live slot of a key in one level: the slot \<^verbatim>\<open>hmap\<close> gives for the key, when its
  \<^verbatim>\<open>expireAt\<close> is positive (zero marks a deleted slot).
\<close>

definition live :: "cache \<Rightarrow> string \<Rightarrow> node option" where
  "live c ky =
     (case map_of (hmap c) ky of
        Some idx \<Rightarrow>
          (case node_at c idx of
             Some nd \<Rightarrow> if expireAt nd > 0 then Some nd else None
           | None \<Rightarrow> None)
      | None \<Rightarrow> None)"

definition admission :: "lru2Store \<Rightarrow> string \<Rightarrow> node option" where
  "admission s ky =
     (case shard s (shard_index s ky) of Some sh \<Rightarrow> live (fst sh) ky | None \<Rightarrow> None)"

definition main_level :: "lru2Store \<Rightarrow> string \<Rightarrow> node option" where
  "main_level s ky =
     (case shard s (shard_index s ky) of Some sh \<Rightarrow> live (snd sh) ky | None \<Rightarrow> None)"


subsection \<open>Well-formed LRU-2 stores\<close>

text \<open>
  What every cache built by \<^verbatim>\<open>Create\<close> and changed by \<^verbatim>\<open>put\<close>, \<^verbatim>\<open>get\<close> and \<^verbatim>\<open>del\<close>
  satisfies: the link table has one entry more than the arena, every link and every index
  in \<^verbatim>\<open>hmap\<close> is within the allocated part of the arena, and the sentinel's \<^verbatim>\<open>p\<close> link
  (the tail) is not 0 once a slot is allocated. Under it no index expression of the source
  is out of range.
\<close>

definition links_ok :: "nat \<Rightarrow> (nat \<times> nat) list \<Rightarrow> bool" where
  "links_ok cap dl \<longleftrightarrow> length dl = cap + 1 \<and> (\<forall>l \<in> set dl. fst l \<le> cap \<and> snd l \<le> cap)"

definition cache_ok :: "cache \<Rightarrow> bool" where
  "cache_ok c \<longleftrightarrow>
     0 < length (cache_m c) \<and> length (cache_m c) < 65535 \<and>
     links_ok (length (cache_m c)) (dlnk c) \<and>
     cache_last c \<le> length (cache_m c) \<and>
     (\<forall>x \<in> set (hmap c). 1 \<le> snd x \<and> snd x \<le> cache_last c) \<and>
     (0 < cache_last c \<longrightarrow> fst (dlnk c ! 0) \<noteq> 0)"

definition slot :: "cache \<Rightarrow> string \<Rightarrow> node option" where
  "slot c ky = (case map_of (hmap c) ky of Some idx \<Rightarrow> node_at c idx | None \<Rightarrow> None)"

definition store_ok :: "lru2Store \<Rightarrow> bool" where
  "store_ok s \<longleftrightarrow>
     0 \<le> mask s \<and> length (caches s) = nat (mask s) + 1 \<and>
     (\<forall>sh \<in> set (caches s). cache_ok (fst sh) \<and> cache_ok (snd sh))"
section \<open>The consistent hash ring (consistenthash/con_hash.go)\<close>

text \<open>
  Modelled from the spec: \<^verbatim>\<open>Config\<close> (config.go is not among the sources). The spec lists
  the options \<^verbatim>\<open>DefaultReplicas\<close>, \<^verbatim>\<open>MinReplicas\<close>, \<^verbatim>\<open>MaxReplicas\<close>,
  \<^verbatim>\<open>LoadBalanceThreshold\<close> (a float, left out here) and \<^verbatim>\<open>HashFunc\<close>; the ring converts
  the result of \<^verbatim>\<open>HashFunc\<close> with \<^verbatim>\<open>int(...)\<close>, so the hash is an integer here.

  \<^item> Go maps are association lists read with \<open>map_of\<close>; a key that is missing reads as
    the zero value (\<^verbatim>\<open>""\<close>, \<^verbatim>\<open>0\<close>).
  \<^item> \<^verbatim>\<open>int\<close> and \<^verbatim>\<open>int64\<close> counters are \<open>int\<close>; the request counters stay far below
    \<open>2 ^ 63\<close>.
  \<^item> The operations are modelled one at a time. The lock \<^verbatim>\<open>m.mu\<close> appears where one
    operation calls another while it holds the lock (\<open>ring_Remove\<close>, called by
    \<open>rebalanceNodes\<close>); the atomic operations are plain reads and writes.
\<close>

record Config =
  DefaultReplicas :: int
  MinReplicas :: int
  MaxReplicas :: int
  HashFunc :: "string \<Rightarrow> int"

record Ring =
  config :: Config
  keys :: "int list"
  hashMap :: "(int \<times> string) list"
  nodeReplicas :: "(string \<times> int) list"
  nodeCounts :: "(string \<times> int) list"
  totalRequests :: int

text \<open>\<^verbatim>\<open>New\<close> with a configuration; the balancer goroutine is left out.\<close>

definition ring_New :: "Config \<Rightarrow> Ring" where
  "ring_New cfg =
     \<lparr>config = cfg, keys = [], hashMap = [], nodeReplicas = [], nodeCounts = [],
      totalRequests = 0\<rparr>"

text \<open>\<^verbatim>\<open>fmt.Sprintf("%s-%d", node, i)\<close> for \<^verbatim>\<open>i \<ge> 0\<close>.\<close>

fun decimal :: "nat \<Rightarrow> string" where
  "decimal i =
     (if i < 10 then [char_of (48 + i)] else decimal (i div 10) @ [char_of (48 + i mod 10)])"

definition vnode :: "string \<Rightarrow> nat \<Rightarrow> string" where
  "vnode node i = node @ ''-'' @ decimal i"

text \<open>\<^verbatim>\<open>addNode(node, replicas)\<close>.\<close>

definition addNode_step :: "string \<Rightarrow> nat \<Rightarrow> Ring \<Rightarrow> Ring" where
  "addNode_step node i m =
     (let hash = HashFunc (config m) (vnode node i)
      in m\<lparr>keys := keys m @ [hash], hashMap := AList.update hash node (hashMap m)\<rparr>)"

definition addNode :: "Ring \<Rightarrow> string \<Rightarrow> int \<Rightarrow> Ring" where
  "addNode m node replicas =
     (let m1 = fold (addNode_step node) [0..<nat replicas] m
      in m1\<lparr>nodeReplicas := AList.update node replicas (nodeReplicas m1)\<rparr>)"

text \<open>
  \<^verbatim>\<open>Add(nodes...)\<close>: an error for no nodes; empty names are skipped; \<^verbatim>\<open>sort.Ints\<close> at
  the end.
\<close>

definition ring_Add :: "Ring \<Rightarrow> string list \<Rightarrow> Ring \<times> string option" where
  "ring_Add m nodes =
     (if length nodes = 0 then (m, Some ''no nodes provided'')
      else
        (let m1 = fold (\<lambda>node m'. if node = [] then m'
                                    else addNode m' node (DefaultReplicas (config m')))
                       nodes m
         in (m1\<lparr>keys := sort (keys m1)\<rparr>, None)))"

text \<open>
  \<^verbatim>\<open>sort.Search(n, f)\<close> of the Go library: the loop
  \<^verbatim>\<open>for i < j { h := int(uint(i+j) >> 1); if !f(h) { i = h + 1 } else { j = h } }\<close>.
\<close>

function Search_loop :: "(nat \<Rightarrow> bool) \<Rightarrow> nat \<Rightarrow> nat \<Rightarrow> nat" where
  "Search_loop f i j =
     (if i < j then
        (let h = (i + j) div 2
         in if \<not> f h then Search_loop f (h + 1) j else Search_loop f i h)
      else i)"
  by pat_completeness auto
termination
  by (relation "measure (\<lambda>(f, i, j). j - i)") auto

declare Search_loop.simps [simp del]

definition Search :: "nat \<Rightarrow> (nat \<Rightarrow> bool) \<Rightarrow> nat" where
  "Search n f = Search_loop f 0 n"

text \<open>
  \<^verbatim>\<open>Get(key)\<close>: the ring after the call and the node returned. \<open>ring_index\<close> is the
  index the source computes before \<^verbatim>\<open>m.hashMap[m.keys[idx]]\<close>; the search calls its
  predicate below \<^verbatim>\<open>len(m.keys)\<close> only and the result is below \<^verbatim>\<open>len(m.keys)\<close> after
  the wrap to 0, so no index is out of range.
\<close>

definition ring_index :: "Ring \<Rightarrow> string \<Rightarrow> nat" where
  "ring_index m ky =
     (let hash = HashFunc (config m) ky;
          idx = Search (length (keys m)) (\<lambda>i. keys m ! i \<ge> hash)
      in if idx = length (keys m) then 0 else idx)"

definition ring_Get :: "Ring \<Rightarrow> string \<Rightarrow> Ring \<times> string" where
  "ring_Get m ky =
     (if ky = [] then (m, [])
      else if length (keys m) = 0 then (m, [])
      else
        (let idx = ring_index m ky;
             node = (case map_of (hashMap m) (keys m ! idx) of Some x \<Rightarrow> x | None \<Rightarrow> []);
             count = (case map_of (nodeCounts m) node of Some c \<Rightarrow> c | None \<Rightarrow> 0)
         in (m\<lparr>nodeCounts := AList.update node (count + 1) (nodeCounts m),
               totalRequests := totalRequests m + 1\<rparr>, node)))"


text \<open>
  \<^verbatim>\<open>Remove(node)\<close>. The empty name is refused before the lock is taken. \<open>held\<close> says
  whether \<^verbatim>\<open>m.mu\<close> is held by the calling goroutine when \<^verbatim>\<open>m.mu.Lock()\<close> is reached: a
  \<^verbatim>\<open>sync.RWMutex\<close> is not reentrant, so the call then blocks for ever and the result is
  \<open>None\<close>. Otherwise the result is the ring after the call and the error returned.
\<close>

definition removeNode_step :: "string \<Rightarrow> nat \<Rightarrow> Ring \<Rightarrow> Ring" where
  "removeNode_step node i m =
     (let hash = HashFunc (config m) (vnode node i)
      in m\<lparr>hashMap := AList.delete hash (hashMap m), keys := remove1 hash (keys m)\<rparr>)"

definition ring_Remove :: "bool \<Rightarrow> Ring \<Rightarrow> string \<Rightarrow> (Ring \<times> string option) option" where
  "ring_Remove held m node =
     (if node = [] then Some (m, Some ''invalid node'')
      else if held then None
      else
        (let replicas = (case map_of (nodeReplicas m) node of Some r \<Rightarrow> r | None \<Rightarrow> 0)
         in if replicas = 0 then Some (m, Some (''node '' @ node @ '' not found''))
            else
              (let m1 = fold (removeNode_step node) [0..<nat replicas] m
               in Some (m1\<lparr>nodeReplicas := AList.delete node (nodeReplicas m1),
                            nodeCounts := AList.delete node (nodeCounts m1)\<rparr>, None))))"

text \<open>
  The adaptive rebalance computes in \<^verbatim>\<open>float64\<close>. The two places where a float decides
  something are parameters of the model:

  \<^item> \<open>exceeds m\<close> stands for the test \<^verbatim>\<open>maxDiff > m.config.LoadBalanceThreshold\<close> of
    \<^verbatim>\<open>checkAndRebalance\<close>, with \<^verbatim>\<open>avgLoad\<close> and \<^verbatim>\<open>maxDiff\<close> computed from the ring \<open>m\<close>;
  \<^item> \<open>scaled tot nodes count current\<close> stands for the value of \<^verbatim>\<open>newReplicas\<close> before
    the clamp, computed from \<^verbatim>\<open>m.totalRequests\<close>, \<^verbatim>\<open>len(m.nodeReplicas)\<close>, the node's
    \<^verbatim>\<open>count\<close> and its \<^verbatim>\<open>currentReplicas\<close>:
    \<^verbatim>\<open>int(float64(currentReplicas) / loadRatio)\<close> when \<^verbatim>\<open>loadRatio > 1\<close> and
    \<^verbatim>\<open>int(float64(currentReplicas) * (2 - loadRatio))\<close> otherwise.
\<close>

definition clampReplicas :: "Config \<Rightarrow> int \<Rightarrow> int" where
  "clampReplicas cfg newReplicas =
     (let n1 = (if newReplicas < MinReplicas cfg then MinReplicas cfg else newReplicas)
      in if n1 > MaxReplicas cfg then MaxReplicas cfg else n1)"

text \<open>
  One round of the loop \<^verbatim>\<open>for node, count := range m.nodeCounts\<close> of \<^verbatim>\<open>rebalanceNodes\<close>;
  \<open>tot\<close> and \<open>nodes\<close> are the values \<^verbatim>\<open>avgLoad\<close> was computed from before the loop. The
  call of \<^verbatim>\<open>m.Remove(node)\<close> is made with \<^verbatim>\<open>m.mu\<close> held, since \<^verbatim>\<open>rebalanceNodes\<close> locked it
  on entry. \<open>None\<close>: the round does not end.
\<close>

definition rebalance_step ::
  "(int \<Rightarrow> nat \<Rightarrow> int \<Rightarrow> int \<Rightarrow> int) \<Rightarrow> int \<Rightarrow> nat \<Rightarrow> string \<times> int \<Rightarrow> Ring option
     \<Rightarrow> Ring option" where
  "rebalance_step scaled tot nodes nc mo =
     (case mo of
        None \<Rightarrow> None
      | Some m \<Rightarrow>
          (let node = fst nc; count = snd nc;
               currentReplicas = (case map_of (nodeReplicas m) node of Some r \<Rightarrow> r | None \<Rightarrow> 0);
               newReplicas = clampReplicas (config m) (scaled tot nodes count currentReplicas)
           in if newReplicas \<noteq> currentReplicas then
                (case ring_Remove True m node of
                   None \<Rightarrow> None
                 | Some (m1, Some err) \<Rightarrow> Some m1
                 | Some (m1, None) \<Rightarrow> Some (addNode m1 node newReplicas))
              else Some m))"

text \<open>
  \<^verbatim>\<open>rebalanceNodes()\<close>: the map \<^verbatim>\<open>m.nodeCounts\<close> is ranged over in the order of the
  association list (Go leaves the order open); then the counters are reset and the
  keys sorted. \<open>None\<close>: the call does not return.
\<close>

definition rebalanceNodes :: "(int \<Rightarrow> nat \<Rightarrow> int \<Rightarrow> int \<Rightarrow> int) \<Rightarrow> Ring \<Rightarrow> Ring option" where
  "rebalanceNodes scaled m =
     map_option
       (\<lambda>m1. m1\<lparr>nodeCounts := map (\<lambda>nc. (fst nc, 0)) (nodeCounts m1),
                 totalRequests := 0,
                 keys := sort (keys m1)\<rparr>)
       (fold (rebalance_step scaled (totalRequests m) (length (nodeReplicas m)))
             (nodeCounts m) (Some m))"

text \<open>\<^verbatim>\<open>checkAndRebalance()\<close>.\<close>

definition checkAndRebalance ::
  "(Ring \<Rightarrow> bool) \<Rightarrow> (int \<Rightarrow> nat \<Rightarrow> int \<Rightarrow> int \<Rightarrow> int) \<Rightarrow> Ring \<Rightarrow> Ring option" where
  "checkAndRebalance exceeds scaled m =
     (if totalRequests m < 1000 then Some m
      else if exceeds m then rebalanceNodes scaled m
      else Some m)"

text \<open>
  The replica count of the specification, in exact arithmetic: with
  \<open>avg = tot / nodes\<close> and \<open>loadRatio = count / avg\<close>, the count is
  \<open>floor (current / loadRatio)\<close> when \<open>loadRatio > 1\<close> and
  \<open>floor (current * (2 - loadRatio))\<close> otherwise (for \<open>tot > 0\<close>, \<open>nodes > 0\<close> and
  \<open>count > 0\<close>).
\<close>

definition spec_newReplicas :: "int \<Rightarrow> nat \<Rightarrow> int \<Rightarrow> int \<Rightarrow> int" where
  "spec_newReplicas tot nodes count current =
     (if count * int nodes > tot then (current * tot) div (count * int nodes)
      else (current * (2 * tot - count * int nodes)) div tot)"
section \<open>The cache wrapper (cache.go)\<close>

text \<open>
  \<^item> \<^verbatim>\<open>store.Store\<close> is an interface with the two implementations \<^verbatim>\<open>lruCache\<close> and
    \<^verbatim>\<open>lru2Store\<close>: a datatype with one constructor for each, and one dispatching function
    for each method that the wrapper calls. The result is \<open>None\<close> for a call that does
    not return: the LRU-2 store panics, or the LRU store blocks on its mutex.
  \<^item> \<^verbatim>\<open>CacheType\<close> is a string type with the constants \<^verbatim>\<open>"lru"\<close> and \<^verbatim>\<open>"lru2"\<close>.
  \<^item> The flags \<^verbatim>\<open>initialized\<close> and \<^verbatim>\<open>closed\<close> (\<^verbatim>\<open>int32\<close>, only ever 0 or 1) are booleans.
  \<^item> \<open>clock\<close> is what the store reads as the current time (\<^verbatim>\<open>time.Now()\<close> in the LRU
    store, the virtual clock \<^verbatim>\<open>Now()\<close> in the LRU-2 store).
  \<^item> The lock and the log messages are left out.
\<close>

datatype Store = LRUStore lruCache | LRU2Store lru2Store

record CacheOptions =
  CacheType :: string
  MaxBytes :: int
  BucketCount :: nat
  CapPerBucket :: nat
  Level2Cap :: nat
  CleanupTime :: int
  OnEvicted :: bool

record Cache =
  store :: "Store option"
  opts :: CacheOptions
  hits :: int
  misses :: int
  initialized :: bool
  cache_closed :: bool

text \<open>\<^verbatim>\<open>store.NewStore(cacheType, opts)\<close>: \<^verbatim>\<open>"lru2"\<close> gives the LRU-2 store, all else the LRU store.\<close>

definition NewStore :: "string \<Rightarrow> CacheOptions \<Rightarrow> Store" where
  "NewStore cacheType copts =
     (if cacheType = ''lru2''
      then LRU2Store (newLRU2Cache (BucketCount copts) (CapPerBucket copts) (Level2Cap copts)
                        (OnEvicted copts))
      else LRUStore (newLRUCache (MaxBytes copts) (OnEvicted copts)))"

definition store_Set :: "Store \<Rightarrow> string \<Rightarrow> Value \<Rightarrow> int \<Rightarrow> Store option" where
  "store_Set st ky v clock =
     (case st of
        LRUStore c \<Rightarrow> map_option LRUStore (lru_Set c ky (Some v) clock)
      | LRU2Store s \<Rightarrow> map_option LRU2Store (lru2_Set s ky (Some v) clock))"

definition store_SetWithExpiration ::
  "Store \<Rightarrow> string \<Rightarrow> Value \<Rightarrow> int \<Rightarrow> int \<Rightarrow> Store option" where
  "store_SetWithExpiration st ky v expiration clock =
     (case st of
        LRUStore c \<Rightarrow>
          map_option LRUStore (lru_SetWithExpiration c ky (Some v) expiration clock)
      | LRU2Store s \<Rightarrow> map_option LRU2Store (lru2_SetWithExpiration s ky (Some v) expiration clock))"


text \<open>\<^verbatim>\<open>NewCache(opts)\<close>: no store yet.\<close>

definition NewCache :: "CacheOptions \<Rightarrow> Cache" where
  "NewCache copts =
     \<lparr>store = None, opts = copts, hits = 0, misses = 0, initialized = False,
      cache_closed = False\<rparr>"

text \<open>\<^verbatim>\<open>ensureInitialized()\<close>: the store is constructed on the first call.\<close>

definition ensureInitialized :: "Cache \<Rightarrow> Cache" where
  "ensureInitialized c =
     (if initialized c then c
      else c\<lparr>store := Some (NewStore (CacheType (opts c)) (opts c)), initialized := True\<rparr>)"

text \<open>
  \<^verbatim>\<open>Add(key, value)\<close>. Calling a method of a nil \<^verbatim>\<open>store\<close> panics. The result is
  \<open>None\<close> when the call does not return (a panic, or a store that blocks).
\<close>

definition Cache_Add :: "Cache \<Rightarrow> string \<Rightarrow> Value \<Rightarrow> int \<Rightarrow> Cache option" where
  "Cache_Add c ky v clock =
     (if cache_closed c then Some c
      else
        do {
          let c1 = ensureInitialized c;
          st \<leftarrow> store c1;
          st' \<leftarrow> store_Set st ky v clock;
          Some (c1\<lparr>store := Some st'\<rparr>)
        })"

text \<open>
  \<^verbatim>\<open>AddWithExpiration(key, value, expirationTime)\<close>; \<open>now\<close> is the time that
  \<^verbatim>\<open>time.Until\<close> reads.
\<close>

definition Cache_AddWithExpiration ::
  "Cache \<Rightarrow> string \<Rightarrow> Value \<Rightarrow> int \<Rightarrow> int \<Rightarrow> int \<Rightarrow> Cache option" where
  "Cache_AddWithExpiration c ky v expirationTime now clock =
     (if cache_closed c then Some c
      else
        (let c1 = ensureInitialized c;
             expiration = expirationTime - now
         in if expiration \<le> 0 then Some c1
            else
              do {
                st \<leftarrow> store c1;
                st' \<leftarrow> store_SetWithExpiration st ky v expiration clock;
                Some (c1\<lparr>store := Some st'\<rparr>)
              }))"


text \<open>Whether the store of the wrapper holds an entry for a key.\<close>

definition store_holds :: "Store option \<Rightarrow> string \<Rightarrow> bool" where
  "store_holds so ky =
     (case so of
        None \<Rightarrow> False
      | Some (LRUStore c) \<Rightarrow> map_of (items c) ky \<noteq> None
      | Some (LRU2Store s) \<Rightarrow> admission s ky \<noteq> None \<or> main_level s ky \<noteq> None)"

text \<open>
  The caches on which the store operations return. The store exists exactly when
  \<^verbatim>\<open>initialized\<close> is set. An LRU store has its mutex free (a hit of \<^verbatim>\<open>lruCache.Get\<close> leaves
  it held for good). An LRU-2 store is well formed, and the options are in the range where
  a store built from them is: at most 32768 buckets (above, the \<^verbatim>\<open>uint16\<close> sum \<^verbatim>\<open>mask+1\<close>
  is 0 and there is no shard) and capacities below 65535 (with 65535 the \<^verbatim>\<open>cap+1\<close> of
  \<^verbatim>\<open>Create\<close> is 0 and the first \<^verbatim>\<open>put\<close> panics).
\<close>

definition store_inv :: "Store \<Rightarrow> bool" where
  "store_inv st = (case st of LRUStore c \<Rightarrow> \<not> mu_locked c | LRU2Store s \<Rightarrow> store_ok s)"

definition Cache_ok :: "Cache \<Rightarrow> bool" where
  "Cache_ok c \<longleftrightarrow>
     (initialized c \<longleftrightarrow> store c \<noteq> None) \<and>
     (case store c of Some st \<Rightarrow> store_inv st | None \<Rightarrow> True) \<and>
     BucketCount (opts c) \<le> 32768 \<and>
     CapPerBucket (opts c) < 65535 \<and> Level2Cap (opts c) < 65535"

section \<open>The cache group (group.go)\<close>

text \<open>
  \<^item> A \<^verbatim>\<open>context.Context\<close> is the list of its key-value pairs; only the key
    \<^verbatim>\<open>"from_peer"\<close> is ever read, and \<^verbatim>\<open>ctx.Value("from_peer") != nil\<close> is
    \<open>map_of ctx ''from_peer'' \<noteq> None\<close>.
  \<^item> Modelled from the spec: \<^verbatim>\<open>PeerPicker\<close> and \<^verbatim>\<open>Peer\<close> (the file that declares the two
    interfaces is not among the sources). \<^verbatim>\<open>PeerPicker\<close> is its method
    \<^verbatim>\<open>PickPeer(key) (peer, ok, isSelf)\<close>; a peer is a number, and the calls on it are
    \<^verbatim>\<open>Set(ctx, group, key, value)\<close> and \<^verbatim>\<open>Delete(group, key)\<close>, as \<^verbatim>\<open>syncToPeers\<close> and
    client.go have them.
  \<^item> A \<^verbatim>\<open>go\<close> statement is returned as a value: the task that was started. What the
    task does when it runs is \<open>syncToPeers\<close>, whose result is the call it makes on the
    peer (if any). \<^verbatim>\<open>Peer.Set\<close> takes a context, \<^verbatim>\<open>Peer.Delete\<close> does not.
  \<^item> \<open>tnow\<close> is the \<^verbatim>\<open>time.Now()\<close> read by the group, \<open>tuntil\<close> the one read by
    \<^verbatim>\<open>time.Until\<close> in the wrapper, \<open>clock\<close> the one read by the store.
  \<^item> The getter, the single-flight loader and the statistics are not touched by \<^verbatim>\<open>Set\<close>
    and \<^verbatim>\<open>Delete\<close> and are left out.
  \<^item> The result of \<^verbatim>\<open>Set\<close> and \<^verbatim>\<open>Delete\<close> is \<open>None\<close> when the call does not return,
    because the local store panics or blocks; no \<^verbatim>\<open>go\<close> statement is reached then.
\<close>

datatype error = ErrKeyRequired | ErrValueRequired | ErrGroupClosed

type_synonym Context = "(string \<times> bool) list"

type_synonym PeerPicker = "string \<Rightarrow> nat \<times> bool \<times> bool"

datatype go_task = SyncToPeers Context string string string


record Group =
  name :: string
  mainCache :: Cache
  peers :: "PeerPicker option"
  expiration :: int
  group_closed :: bool

text \<open>\<^verbatim>\<open>Set(ctx, key, value)\<close>: the group, the error returned and the task started.\<close>

definition Group_Set ::
  "Group \<Rightarrow> Context \<Rightarrow> string \<Rightarrow> string \<Rightarrow> int \<Rightarrow> int \<Rightarrow> int
     \<Rightarrow> (Group \<times> error option \<times> go_task option) option" where
  "Group_Set g ctx ky val tnow tuntil clock =
     (if group_closed g then Some (g, Some ErrGroupClosed, None)
      else if ky = [] then Some (g, Some ErrKeyRequired, None)
      else if length val = 0 then Some (g, Some ErrValueRequired, None)
      else
        do {
          let isPeerRequest = (map_of ctx ''from_peer'' \<noteq> None);
          let view = ByteView val;
          mc \<leftarrow> (if expiration g > 0
                 then Cache_AddWithExpiration (mainCache g) ky view (tnow + expiration g)
                        tuntil clock
                 else Cache_Add (mainCache g) ky view clock);
          Some (g\<lparr>mainCache := mc\<rparr>, None,
                if \<not> isPeerRequest \<and> peers g \<noteq> None
                then Some (SyncToPeers ctx ''set'' ky val) else None)
        })"







section \<open>The single-flight group (singleflight)\<close>

text \<open>
  \<^verbatim>\<open>Group.Do(key, fn)\<close> is run by several goroutines at once, so it is modelled as a
  step machine: every caller has a program counter and one step runs one statement of
  \<^verbatim>\<open>Do\<close> for one caller. The program counters are named after the lines of the source.

  \<^item> \<^verbatim>\<open>g.m\<close> (a \<^verbatim>\<open>sync.Map\<close>) is an association list from keys to addresses of \<^verbatim>\<open>call\<close>
    records; \<^verbatim>\<open>Load\<close>, \<^verbatim>\<open>Store\<close> and \<^verbatim>\<open>Delete\<close> are one step each.
  \<^item> The \<^verbatim>\<open>call\<close> records live in a heap, a list indexed by address; \<^verbatim>\<open>wg\<close> is the
    counter of the \<^verbatim>\<open>sync.WaitGroup\<close> and \<^verbatim>\<open>(val, err)\<close> starts as \<^verbatim>\<open>(nil, nil)\<close>.
  \<^item> \<^verbatim>\<open>fn\<close> is a function of the number of invocations made before it, so that two
    invocations can give different results; \<open>sf_invocations\<close> counts the invocations.
  \<^item> \<^verbatim>\<open>c.wg.Wait()\<close> blocks while the counter is positive: the step leaves the state as
    it is. \<^verbatim>\<open>c.wg.Done()\<close> panics on a negative counter: the step is \<open>None\<close>.
\<close>

type_synonym result = "string option \<times> string option"

record call =
  call_wg :: int
  call_result :: result

datatype pc =
    L21
  | L23 nat
  | L24 nat
  | L28
  | L30 nat
  | L32 nat
  | L33 nat
  | L35 nat
  | L37 nat
  | Returned result

record sf_state =
  sf_m :: "(string \<times> nat) list"
  sf_calls :: "call list"
  sf_invocations :: nat
  sf_callers :: "(string \<times> pc) list"

text \<open>A group with an empty map and one caller of \<^verbatim>\<open>Do\<close> for each key of the list.\<close>

definition sf_init :: "string list \<Rightarrow> sf_state" where
  "sf_init kys =
     \<lparr>sf_m = [], sf_calls = [], sf_invocations = 0, sf_callers = map (\<lambda>ky. (ky, L21)) kys\<rparr>"

definition call_at :: "sf_state \<Rightarrow> nat \<Rightarrow> call option" where
  "call_at s c = (if c < length (sf_calls s) then Some (sf_calls s ! c) else None)"

definition goto :: "nat \<Rightarrow> string \<Rightarrow> pc \<Rightarrow> sf_state \<Rightarrow> sf_state" where
  "goto t ky l s = s\<lparr>sf_callers := (sf_callers s)[t := (ky, l)]\<rparr>"

text \<open>
  One step of caller \<open>t\<close>:

  \<^item> \<open>L21\<close>: \<^verbatim>\<open>existing, ok := g.m.Load(key)\<close> and the branch on \<^verbatim>\<open>ok\<close>;
  \<^item> \<open>L23 c\<close>: \<^verbatim>\<open>c.wg.Wait()\<close>; \<open>L24 c\<close>: \<^verbatim>\<open>return c.val, c.err\<close>;
  \<^item> \<open>L28\<close>: \<^verbatim>\<open>c := &call{}\<close> and \<^verbatim>\<open>c.wg.Add(1)\<close>, on a record no other caller can reach
    yet;
  \<^item> \<open>L30 c\<close>: \<^verbatim>\<open>g.m.Store(key, c)\<close>;
  \<^item> \<open>L32 c\<close>: \<^verbatim>\<open>c.val, c.err = fn()\<close>;
  \<^item> \<open>L33 c\<close>: \<^verbatim>\<open>c.wg.Done()\<close>;
  \<^item> \<open>L35 c\<close>: \<^verbatim>\<open>g.m.Delete(key)\<close>;
  \<^item> \<open>L37 c\<close>: \<^verbatim>\<open>return c.val, c.err\<close>.

  A caller that has returned, and a number that is no caller, leave the state as it is.
\<close>

definition sf_step :: "(nat \<Rightarrow> result) \<Rightarrow> sf_state \<Rightarrow> nat \<Rightarrow> sf_state option" where
  "sf_step fn s t =
     (if t \<ge> length (sf_callers s) then Some s
      else
        (let ky = fst (sf_callers s ! t) in
         case snd (sf_callers s ! t) of
           L21 \<Rightarrow>
             (case map_of (sf_m s) ky of
                Some c \<Rightarrow> Some (goto t ky (L23 c) s)
              | None \<Rightarrow> Some (goto t ky L28 s))
         | L23 c \<Rightarrow>
             do { cl \<leftarrow> call_at s c;
                  if call_wg cl > 0 then Some s else Some (goto t ky (L24 c) s) }
         | L24 c \<Rightarrow>
             do { cl \<leftarrow> call_at s c; Some (goto t ky (Returned (call_result cl)) s) }
         | L28 \<Rightarrow>
             Some (goto t ky (L30 (length (sf_calls s)))
                     (s\<lparr>sf_calls := sf_calls s @ [\<lparr>call_wg = 1, call_result = (None, None)\<rparr>]\<rparr>))
         | L30 c \<Rightarrow> Some (goto t ky (L32 c) (s\<lparr>sf_m := AList.update ky c (sf_m s)\<rparr>))
         | L32 c \<Rightarrow>
             do { cl \<leftarrow> call_at s c;
                  Some (goto t ky (L33 c)
                          (s\<lparr>sf_calls := (sf_calls s)
                                 [c := cl\<lparr>call_result := fn (sf_invocations s)\<rparr>],
                             sf_invocations := sf_invocations s + 1\<rparr>)) }
         | L33 c \<Rightarrow>
             do { cl \<leftarrow> call_at s c;
                  if call_wg cl - 1 < 0 then None
                  else Some (goto t ky (L35 c)
                               (s\<lparr>sf_calls := (sf_calls s)
                                      [c := cl\<lparr>call_wg := call_wg cl - 1\<rparr>]\<rparr>)) }
         | L35 c \<Rightarrow> Some (goto t ky (L37 c) (s\<lparr>sf_m := AList.delete ky (sf_m s)\<rparr>))
         | L37 c \<Rightarrow>
             do { cl \<leftarrow> call_at s c; Some (goto t ky (Returned (call_result cl)) s) }
         | Returned r \<Rightarrow> Some s))"

text \<open>A schedule is the list of the callers that take the steps, in order.\<close>

definition sf_run :: "(nat \<Rightarrow> result) \<Rightarrow> nat list \<Rightarrow> sf_state \<Rightarrow> sf_state option" where
  "sf_run fn sched s = fold (\<lambda>t so. Option.bind so (\<lambda>s'. sf_step fn s' t)) sched (Some s)"

text \<open>What is seen of a run: the number of invocations of \<^verbatim>\<open>fn\<close> and where each caller is.\<close>

definition sf_observe :: "sf_state option \<Rightarrow> (nat \<times> pc list) option" where
  "sf_observe so = map_option (\<lambda>s. (sf_invocations s, map snd (sf_callers s))) so"
section \<open>Properties of the LRU store\<close>

text \<open>A hit of \<^verbatim>\<open>Get\<close> moves the element to the Back of the list, the MRU end.\<close>

lemma MoveToBack_last: "e \<in> set l \<Longrightarrow> last (MoveToBack l e) = e"
  by (simp add: MoveToBack_def)

lemma lru_Get_hit_moves_to_back:
  assumes "map_of (items c) k = Some elem" and "map_of (expires c) k = None"
    and "elem \<in> set (lst c)" and "\<not> mu_locked c"
  shows "\<exists>c' r. lru_Get c k now = Some (c', r) \<and> last (lst c') = elem"
  using assms by (auto simp: lru_Get_def MoveToBack_last)

text \<open>Whatever the store holds, the boolean that \<^verbatim>\<open>Get\<close> returns is false.\<close>

lemma lru_Get_reports_false:
  "lru_Get c k now = Some (c', (v, ok), t) \<Longrightarrow> ok = False"
  by (auto simp: lru_Get_def split: option.splits if_splits)

text \<open>
  A hit of \<^verbatim>\<open>Get\<close> returns with the mutex held, and on a store whose mutex is held no
  operation returns.
\<close>

lemma lru_Get_hit_keeps_mutex:
  "lru_Get c k now = Some (c', (Some v, ok), t) \<Longrightarrow> mu_locked c'"
  by (auto simp: lru_Get_def split: option.splits if_splits)

lemma lru_locked_blocks:
  assumes "mu_locked c"
  shows "lru_Get c k now = None" and "lru_Delete c k = None"
    and "lru_SetWithExpiration c k vo d now = None" and "lru_Set c k vo now = None"
  using assms
  by (simp_all add: lru_Get_def lru_Delete_def lru_SetWithExpiration_def lru_Set_def
               split: option.splits)






text \<open>
  The second loop of \<^verbatim>\<open>evict()\<close>, with which the insert branch of \<^verbatim>\<open>SetWithExpiration\<close>
  ends: with \<^verbatim>\<open>maxBytes > 0\<close> it stops within the bound or with an empty list.
\<close>

lemma removeElement_lst:
  "lst (removeElement c e) = (case map_of (elems c) e of None \<Rightarrow> lst c | Some x \<Rightarrow> filter (\<lambda>y. y \<noteq> e) (lst c))"
  "elems (removeElement c e) = elems c" "maxBytes (removeElement c e) = maxBytes c"
  by (simp_all add: removeElement_def split: option.splits)

lemma evictLRU_post:
  assumes "set (lst c) \<subseteq> fst ` set (elems c)" and "0 < maxBytes c"
  shows "usedBytes (evictLRU c) \<le> maxBytes c \<or> lst (evictLRU c) = []"
  using assms
proof (induction c rule: evictLRU.induct)
  case (1 c)
  show ?case
  proof (cases "maxBytes c > 0 \<and> usedBytes c > maxBytes c \<and> length (lst c) > 0")
    case False
    then have "evictLRU c = c" by (subst evictLRU.simps) (simp only: if_False)
    with False "1.prems" show ?thesis by auto
  next
    case True
    let ?x = "hd (lst c)"
    from True have l: "lst c = ?x # tl (lst c)" by (cases "lst c") auto
    then have "?x \<in> set (lst c)" by (metis list.set_intros(1))
    with "1.prems"(1) have "?x \<in> fst ` set (elems c)" by blast
    then obtain en where en: "map_of (elems c) ?x = Some en"
      by (metis domD dom_map_of_conv_image_fst)
    let ?c' = "removeElement c ?x"
    have e: "evictLRU c = evictLRU ?c'"
      using en by (subst evictLRU.simps) (simp only: True if_True option.case simp_thms)
    have sub: "set (lst ?c') \<subseteq> fst ` set (elems ?c')"
      using "1.prems"(1) en by (auto simp: removeElement_lst)
    have mb: "0 < maxBytes ?c'" using "1.prems"(2) by (simp add: removeElement_lst)
    from "1.IH" [OF True en sub mb] show ?thesis unfolding e by (simp add: removeElement_lst)
  qed
qed

text \<open>
  Claim C1. After \<^verbatim>\<open>Set(k, v)\<close> on an LRU store, with no expiration, deletion or
  eviction in between, \<^verbatim>\<open>Get(k)\<close> should return \<open>v\<close> together with \<^verbatim>\<open>true\<close>. On a new
  store without a byte bound, \<^verbatim>\<open>Set("k", "v")\<close> followed by \<^verbatim>\<open>Get("k")\<close> returns the
  stored value together with \<^verbatim>\<open>false\<close>: the last \<^verbatim>\<open>return\<close> of \<^verbatim>\<open>Get\<close> is
  \<^verbatim>\<open>return value,false\<close>. The call also returns with the mutex of the store held.
\<close>

theorem lru_Get_after_Set_returns_false:
  "Option.bind (lru_Set (newLRUCache 0 False) ''k'' (Some (ByteView ''v'')) 0)
     (\<lambda>c. map_option (\<lambda>r. (mu_locked (fst r), snd r)) (lru_Get c ''k'' 1))
     = Some (True, (Some (ByteView ''v''), False), None)"
  by code_simp

text \<open>
  Claim C3. With \<^verbatim>\<open>maxBytes > 0\<close>, every \<^verbatim>\<open>Set\<close> should leave
  \<^verbatim>\<open>usedBytes \<le> maxBytes\<close>, also when it updates a key that is present with a larger
  value. On a new store with \<^verbatim>\<open>maxBytes = 10\<close>, \<^verbatim>\<open>Set("a", 5 bytes)\<close> gives
  \<^verbatim>\<open>usedBytes = 6\<close>, and \<^verbatim>\<open>Set("a", 20 bytes)\<close> then gives \<^verbatim>\<open>usedBytes = 21\<close>: the
  update branch of \<^verbatim>\<open>SetWithExpiration\<close> returns before \<^verbatim>\<open>evict()\<close>.
\<close>

theorem lru_Set_update_exceeds_maxBytes:
  "do { c1 \<leftarrow> lru_Set (newLRUCache 10 False) ''a'' (Some (ByteView ''12345'')) 0;
        c2 \<leftarrow> lru_Set c1 ''a'' (Some (ByteView ''12345678901234567890'')) 0;
        Some (usedBytes c1, maxBytes c2, usedBytes c2, usedBytes c2 \<le> maxBytes c2) }
     = Some (6, 10, 21, False)"
  by code_simp

section \<open>Properties of the LRU-2 store\<close>

lemma rd_links:
  assumes "links_ok cap dl" and "i \<le> cap"
  shows "\<exists>x. rd dl i d = Some x \<and> x \<le> cap"
proof -
  from assms have "i < length dl" by (simp add: links_ok_def)
  moreover from this assms have "fst (dl ! i) \<le> cap \<and> snd (dl ! i) \<le> cap"
    by (simp add: links_ok_def)
  ultimately show ?thesis by (simp add: rd_def)
qed

lemma wr_links:
  assumes "links_ok cap dl" and "i \<le> cap" and "x \<le> cap"
  shows "\<exists>dl'. wr dl i d x = Some dl' \<and> links_ok cap dl'"
proof -
  from assms have i: "i < length dl" by (simp add: links_ok_def)
  let ?v = "if d = 0 then (x, snd (dl ! i)) else (fst (dl ! i), x)"
  from i assms have v: "fst ?v \<le> cap \<and> snd ?v \<le> cap" by (simp add: links_ok_def)
  have "set (dl[i := ?v]) \<subseteq> insert ?v (set dl)" by (rule set_update_subset_insert)
  with v assms have "links_ok cap (dl[i := ?v])" by (auto simp: links_ok_def)
  with i show ?thesis by (simp add: wr_def)
qed

lemma adjust_total:
  assumes l: "links_ok cap (dlnk c)" and i: "idx \<le> cap"
  shows "\<exists>d. adjust c idx f t = Some (c\<lparr>dlnk := d\<rparr>) \<and> links_ok cap d"
proof -
  from rd_links [OF l i] obtain a where a: "rd (dlnk c) idx f = Some a" "a \<le> cap" by blast
  show ?thesis
  proof (cases "a = 0")
    case True
    with a l show ?thesis by (auto simp: adjust_def intro: exI [of _ "dlnk c"])
  next
    case False
    from rd_links [OF l i] obtain x1 where x1: "rd (dlnk c) idx t = Some x1" "x1 \<le> cap" by blast
    from wr_links [OF l x1(2) a(2)] obtain d1 where d1: "wr (dlnk c) x1 f a = Some d1" "links_ok cap d1" by blast
    from rd_links [OF d1(2) i] obtain x2 where x2: "rd d1 idx f = Some x2" "x2 \<le> cap" by blast
    from rd_links [OF d1(2) i] obtain y2 where y2: "rd d1 idx t = Some y2" "y2 \<le> cap" by blast
    from wr_links [OF d1(2) x2(2) y2(2)] obtain d2 where d2: "wr d1 x2 t y2 = Some d2" "links_ok cap d2" by blast
    from wr_links [OF d2(2) i, of 0] obtain d3 where d3: "wr d2 idx f 0 = Some d3" "links_ok cap d3" by blast
    from rd_links [OF d3(2), of 0] obtain y4 where y4: "rd d3 0 t = Some y4" "y4 \<le> cap" by blast
    from wr_links [OF d3(2) i y4(2)] obtain d4 where d4: "wr d3 idx t y4 = Some d4" "links_ok cap d4" by blast
    from rd_links [OF d4(2), of 0] obtain x5 where x5: "rd d4 0 t = Some x5" "x5 \<le> cap" by blast
    from wr_links [OF d4(2) x5(2) i] obtain d5 where d5: "wr d4 x5 f idx = Some d5" "links_ok cap d5" by blast
    from wr_links [OF d5(2) _ i, of 0] obtain d6 where d6: "wr d5 0 t idx = Some d6" "links_ok cap d6" by blast
    from False a x1 d1 x2 y2 d2 d3 y4 d4 x5 d5 d6 show ?thesis
      by (auto simp: adjust_def)
  qed
qed

lemma wr_fst0:
  "wr dl i d x = Some dl' \<Longrightarrow> fst (dl' ! 0) = (if i = 0 \<and> d = 0 then x else fst (dl ! 0))"
  by (auto simp: wr_def split: if_splits simp: nth_list_update)

lemma rd_wr:
  "wr dl i d x = Some dl' \<Longrightarrow> rd dl' j e = (if j = i \<and> (d = 0 \<longleftrightarrow> e = 0) then Some x else rd dl j e)"
  by (auto simp: wr_def rd_def split: if_splits simp: nth_list_update)

lemma adjust_tail_nonzero:
  assumes "adjust c idx f t = Some c'" and "idx \<noteq> 0" and "fst (dlnk c ! 0) \<noteq> 0"
    and "(f = 0 \<and> t = 1) \<or> (f = 1 \<and> t = 0)"
  shows "fst (dlnk c' ! 0) \<noteq> 0"
  using assms
  by (auto simp: adjust_def bind_eq_Some_conv rd_wr wr_fst0 split: if_splits)

lemma set_AList_update: "set (AList.update k v al) \<subseteq> insert (k, v) (set al)"
  by (induction al) auto

lemma set_AList_delete: "set (AList.delete k al) \<subseteq> set al"
  by (induction al) auto

lemma hmap_idx:
  assumes "cache_ok c" and "map_of (hmap c) ky = Some idx"
  shows "1 \<le> idx \<and> idx \<le> cache_last c \<and> idx \<le> length (cache_m c) \<and> 0 < cache_last c"
proof -
  from assms(2) have "(ky, idx) \<in> set (hmap c)" by (rule map_of_SomeD)
  with assms(1) show ?thesis by (fastforce simp: cache_ok_def)
qed

lemma adjust_cache_ok:
  assumes ok: "cache_ok c" and i: "1 \<le> idx" "idx \<le> cache_last c"
    and ft: "(f = 0 \<and> t = 1) \<or> (f = 1 \<and> t = 0)"
  shows "\<exists>d. adjust c idx f t = Some (c\<lparr>dlnk := d\<rparr>) \<and> cache_ok (c\<lparr>dlnk := d\<rparr>)"
proof -
  from ok i have l: "links_ok (length (cache_m c)) (dlnk c)" and i': "idx \<le> length (cache_m c)"
    and z: "fst (dlnk c ! 0) \<noteq> 0"
    by (auto simp: cache_ok_def)
  from adjust_total [OF l i'] obtain d where
    d: "adjust c idx f t = Some (c\<lparr>dlnk := d\<rparr>)" "links_ok (length (cache_m c)) d" by blast
  from i have "idx \<noteq> 0" by simp
  from adjust_tail_nonzero [OF d(1) this z ft] have "fst (d ! 0) \<noteq> 0" by simp
  with ok d show ?thesis by (auto simp: cache_ok_def)
qed

lemma get_ok:
  assumes ok: "cache_ok c"
  shows "\<exists>c'. get c ky = Some (c', slot c ky, if slot c ky = None then 0 else 1) \<and> cache_ok c'
            \<and> cache_m c' = cache_m c \<and> hmap c' = hmap c"
proof (cases "map_of (hmap c) ky")
  case None
  with ok show ?thesis by (simp add: get_def slot_def)
next
  case (Some idx)
  from hmap_idx [OF ok Some] have i: "1 \<le> idx" "idx \<le> cache_last c" "idx \<le> length (cache_m c)"
    by auto
  from adjust_cache_ok [OF ok i(1,2), of 0 1] obtain d where
    d: "adjust c idx 0 1 = Some (c\<lparr>dlnk := d\<rparr>)" "cache_ok (c\<lparr>dlnk := d\<rparr>)" by auto
  with Some i show ?thesis
    by (simp add: get_def slot_def node_at_def link_p_def link_n_def)
qed

lemma del_ok:
  assumes ok: "cache_ok c"
  shows "\<exists>c'. del c ky =
            Some (c', map_option (\<lambda>x. x\<lparr>expireAt := 0\<rparr>) (live c ky),
                  (if live c ky = None then 0 else 1),
                  (case live c ky of None \<Rightarrow> 0 | Some x \<Rightarrow> expireAt x))
          \<and> cache_ok c' \<and> live c' ky = None \<and> (live c ky = None \<longrightarrow> c' = c)"
proof (cases "map_of (hmap c) ky")
  case None
  with ok show ?thesis by (simp add: del_def live_def)
next
  case (Some idx)
  from hmap_idx [OF ok Some] have i: "1 \<le> idx" "idx \<le> cache_last c" "idx \<le> length (cache_m c)"
    by auto
  let ?old = "cache_m c ! (idx - 1)"
  from i have na: "node_at c idx = Some ?old" by (simp add: node_at_def)
  show ?thesis
  proof (cases "expireAt ?old > 0")
    case False
    with Some na ok show ?thesis by (simp add: del_def live_def)
  next
    case True
    let ?c1 = "c\<lparr>cache_m := (cache_m c)[idx - 1 := ?old\<lparr>expireAt := 0\<rparr>]\<rparr>"
    from i have ns: "node_set c idx (?old\<lparr>expireAt := 0\<rparr>) = Some ?c1" by (simp add: node_set_def)
    from ok have ok1: "cache_ok ?c1" by (simp add: cache_ok_def)
    from i have i1: "idx \<le> cache_last ?c1" by simp
    from adjust_cache_ok [OF ok1 i(1) i1, of 1 0] obtain d where
      d: "adjust ?c1 idx 1 0 = Some (?c1\<lparr>dlnk := d\<rparr>)" "cache_ok (?c1\<lparr>dlnk := d\<rparr>)" by auto
    from i have nd: "node_at (?c1\<lparr>dlnk := d\<rparr>) idx = Some (?old\<lparr>expireAt := 0\<rparr>)"
      by (simp add: node_at_def)
    from Some na True ns d nd show ?thesis
      by (simp add: del_def live_def link_p_def link_n_def)
  qed
qed

lemma links_ok_update:
  assumes "links_ok cap dl" and "a \<le> cap" and "b \<le> cap"
  shows "links_ok cap (dl[i := (a, b)])"
proof -
  have "set (dl[i := (a, b)]) \<subseteq> insert (a, b) (set dl)" by (rule set_update_subset_insert)
  with assms show ?thesis by (auto simp: links_ok_def)
qed

lemma links_ok_0:
  assumes "links_ok cap dl"
  shows "rd dl 0 d = Some (if d = 0 then fst (dl ! 0) else snd (dl ! 0))"
    and "fst (dl ! 0) \<le> cap" and "snd (dl ! 0) \<le> cap"
  using assms by (auto simp: links_ok_def rd_def)

lemma put_update_ok:
  assumes ok: "cache_ok c" and h: "map_of (hmap c) ky = Some idx"
  shows "\<exists>c'. put c ky vl ex cb = Some (c', 0, None) \<and> cache_ok c'
          \<and> slot c' ky = Some ((cache_m c ! (idx - 1))\<lparr>node_v := vl, expireAt := ex\<rparr>)"
proof -
  from hmap_idx [OF ok h] have i: "1 \<le> idx" "idx \<le> cache_last c" "idx \<le> length (cache_m c)"
    by auto
  let ?new = "(cache_m c ! (idx - 1))\<lparr>node_v := vl, expireAt := ex\<rparr>"
  let ?c1 = "c\<lparr>cache_m := (cache_m c)[idx - 1 := ?new]\<rparr>"
  from i have na: "node_at c idx = Some (cache_m c ! (idx - 1))" by (simp add: node_at_def)
  from i have ns: "node_set c idx ?new = Some ?c1" by (simp add: node_set_def)
  from ok have ok1: "cache_ok ?c1" by (simp add: cache_ok_def)
  from i have i1: "idx \<le> cache_last ?c1" by simp
  from adjust_cache_ok [OF ok1 i(1) i1, of 0 1] obtain d where
    d: "adjust ?c1 idx 0 1 = Some (?c1\<lparr>dlnk := d\<rparr>)" "cache_ok (?c1\<lparr>dlnk := d\<rparr>)" by auto
  from i h have "slot (?c1\<lparr>dlnk := d\<rparr>) ky = Some ?new" by (simp add: slot_def node_at_def)
  with h na ns d show ?thesis by (simp add: put_def link_p_def link_n_def)
qed

lemma put_recycle_ok:
  assumes ok: "cache_ok c" and h: "map_of (hmap c) ky = None"
    and full: "cache_last c = length (cache_m c)"
  shows "\<exists>c' ev. put c ky vl ex cb = Some (c', 1, ev) \<and> cache_ok c'
          \<and> slot c' ky = Some \<lparr>node_k = ky, node_v = vl, expireAt = ex\<rparr>"
proof -
  from ok have l: "links_ok (length (cache_m c)) (dlnk c)" by (simp add: cache_ok_def)
  let ?tl = "fst (dlnk c ! 0)"
  from ok full have t0: "?tl \<noteq> 0" by (simp add: cache_ok_def)
  from links_ok_0 [OF l] have rt: "rd (dlnk c) 0 0 = Some ?tl" and tc: "?tl \<le> length (cache_m c)"
    by auto
  let ?tail = "cache_m c ! (?tl - 1)"
  let ?new = "\<lparr>node_k = ky, node_v = vl, expireAt = ex\<rparr>"
  let ?c2 = "c\<lparr>hmap := AList.update ky ?tl (AList.delete (node_k ?tail) (hmap c)),
               cache_m := (cache_m c)[?tl - 1 := ?new]\<rparr>"
  from t0 tc have na: "node_at c ?tl = Some ?tail" by (simp add: node_at_def)
  have "set (hmap ?c2) \<subseteq> insert (ky, ?tl) (set (hmap c))"
    using set_AList_update [of ky ?tl "AList.delete (node_k ?tail) (hmap c)"]
          set_AList_delete [of "node_k ?tail" "hmap c"] by auto
  with ok t0 tc full have ok2: "cache_ok ?c2" by (auto simp: cache_ok_def)
  from t0 have t1: "1 \<le> ?tl" by simp
  from tc full have t2: "?tl \<le> cache_last ?c2" by simp
  from adjust_cache_ok [OF ok2 t1 t2, of 0 1] obtain d where
    d: "adjust ?c2 ?tl 0 1 = Some (?c2\<lparr>dlnk := d\<rparr>)" "cache_ok (?c2\<lparr>dlnk := d\<rparr>)" by auto
  from t0 tc have sl: "slot (?c2\<lparr>dlnk := d\<rparr>) ky = Some ?new"
    by (simp add: slot_def node_at_def update_conv')
  from t0 tc have ns: "node_set (c\<lparr>hmap := AList.update ky ?tl (AList.delete (node_k ?tail) (hmap c))\<rparr>)
                     ?tl ?new = Some ?c2"
    by (simp add: node_set_def)
  from h full rt na ns d sl show ?thesis
    by (simp add: put_def link_p_def link_n_def Let_def)
qed

lemma put_fresh_ok:
  assumes ok: "cache_ok c" and h: "map_of (hmap c) ky = None"
    and nfull: "cache_last c \<noteq> length (cache_m c)"
  shows "\<exists>c'. put c ky vl ex cb = Some (c', 1, None) \<and> cache_ok c'
          \<and> slot c' ky = Some \<lparr>node_k = ky, node_v = vl, expireAt = ex\<rparr>"
proof -
  let ?cap = "length (cache_m c)"
  let ?l = "cache_last c + 1"
  let ?new = "\<lparr>node_k = ky, node_v = vl, expireAt = ex\<rparr>"
  from ok have l: "links_ok ?cap (dlnk c)" and cap: "?cap < 65535" and le: "cache_last c \<le> ?cap"
    by (simp_all add: cache_ok_def)
  from le nfull have lc: "?l \<le> ?cap" by simp
  with cap have lm: "?l mod 65536 = ?l" by simp
  note z = links_ok_0 [OF l]
  have "\<exists>d1. (hmap c = [] \<longrightarrow> wr (dlnk c) 0 0 ?l = Some d1)
             \<and> (hmap c \<noteq> [] \<longrightarrow> wr (dlnk c) (snd (dlnk c ! 0)) 0 ?l = Some d1)
             \<and> links_ok ?cap d1 \<and> fst (d1 ! 0) \<noteq> 0"
  proof (cases "hmap c")
    case Nil
    from wr_links [OF l _ lc, of 0 0] obtain d1 where
      d1: "wr (dlnk c) 0 0 ?l = Some d1" "links_ok ?cap d1" by auto
    from wr_fst0 [OF d1(1)] have "fst (d1 ! 0) \<noteq> 0" by simp
    with Nil d1 show ?thesis by simp
  next
    case (Cons x xs)
    then have "x \<in> set (hmap c)" by simp
    with ok have "0 < cache_last c" by (fastforce simp: cache_ok_def)
    with ok have nz: "fst (dlnk c ! 0) \<noteq> 0" by (simp add: cache_ok_def)
    from wr_links [OF l z(3) lc, of 0] obtain d1 where
      d1: "wr (dlnk c) (snd (dlnk c ! 0)) 0 ?l = Some d1" "links_ok ?cap d1" by auto
    from wr_fst0 [OF d1(1)] nz have "fst (d1 ! 0) \<noteq> 0" by simp
    with Cons d1 show ?thesis by simp
  qed
  then obtain d1 where
    d1: "hmap c = [] \<longrightarrow> wr (dlnk c) 0 0 ?l = Some d1"
        "hmap c \<noteq> [] \<longrightarrow> wr (dlnk c) (snd (dlnk c ! 0)) 0 ?l = Some d1"
    and l1: "links_ok ?cap d1" and nz1: "fst (d1 ! 0) \<noteq> 0" by blast
  let ?c2 = "c\<lparr>cache_last := ?l, dlnk := d1, cache_m := (cache_m c)[?l - 1 := ?new]\<rparr>"
  from lc have ns: "node_set (c\<lparr>cache_last := ?l, dlnk := d1\<rparr>) ?l ?new = Some ?c2"
    by (simp add: node_set_def)
  note z1 = links_ok_0 [OF l1]
  let ?h2 = "snd (d1 ! 0)"
  let ?d2 = "d1[?l := (0, ?h2)]"
  from l1 lc have ll: "?l < length d1" by (simp add: links_ok_def)
  from links_ok_update [OF l1 _ z1(3), of 0 ?l] have l2: "links_ok ?cap ?d2" by simp
  from wr_links [OF l2 _ lc, of 0 1] obtain d3 where
    d3: "wr ?d2 0 1 ?l = Some d3" "links_ok ?cap d3" by auto
  from wr_fst0 [OF d3(1)] nz1 have nz3: "fst (d3 ! 0) \<noteq> 0" by simp
  let ?c' = "?c2\<lparr>dlnk := d3, hmap := AList.update ky ?l (hmap c)\<rparr>"
  have sub: "set (AList.update ky ?l (hmap c)) \<subseteq> insert (ky, ?l) (set (hmap c))"
    by (rule set_AList_update)
  from ok have "\<forall>x \<in> set (hmap c). 1 \<le> snd x \<and> snd x \<le> ?l" by (auto simp: cache_ok_def)
  with sub have hm: "\<forall>x \<in> set (AList.update ky ?l (hmap c)). 1 \<le> snd x \<and> snd x \<le> ?l"
    by fastforce
  from ok lc d3(2) nz3 hm have ok': "cache_ok ?c'" by (simp add: cache_ok_def)
  from lc have sl: "slot ?c' ky = Some ?new" by (simp add: slot_def node_at_def update_conv')
  from h nfull lm d1 ns z(1) [of 1] z1(1) [of 1] ll d3(1) ok' sl show ?thesis
    by (cases "hmap c = []") (simp_all add: put_def Let_def link_n_def link_p_def)
qed

lemma put_ok:
  assumes ok: "cache_ok c"
  shows "\<exists>c' st ev nd. put c ky vl ex cb = Some (c', st, ev) \<and> cache_ok c'
          \<and> slot c' ky = Some nd \<and> node_v nd = vl \<and> expireAt nd = ex"
proof (cases "map_of (hmap c) ky")
  case (Some idx)
  from put_update_ok [OF ok Some, of vl ex cb] show ?thesis by auto
next
  case None
  show ?thesis
  proof (cases "cache_last c = length (cache_m c)")
    case True
    from put_recycle_ok [OF ok None True, of vl ex cb] show ?thesis by auto
  next
    case False
    from put_fresh_ok [OF ok None False, of vl ex cb] show ?thesis by auto
  qed
qed

lemma live_slot:
  "live c ky = (case slot c ky of Some nd \<Rightarrow> if expireAt nd > 0 then Some nd else None
                | None \<Rightarrow> None)"
  by (simp add: live_def slot_def split: option.splits)


lemma shard_index_range:
  assumes "0 \<le> mask s"
  shows "0 \<le> shard_index s ky \<and> shard_index s ky \<le> mask s"
  using assms by (simp add: shard_index_def)

lemma shard_ok:
  assumes "store_ok s"
  shows "\<exists>sh. shard s (shard_index s ky) = Some sh \<and> cache_ok (fst sh) \<and> cache_ok (snd sh)"
proof -
  from assms have m: "0 \<le> mask s" and len: "length (caches s) = nat (mask s) + 1"
    by (simp_all add: store_ok_def)
  from shard_index_range [OF m, of ky] len
  have r: "0 \<le> shard_index s ky" "nat (shard_index s ky) < length (caches s)" by auto
  then have "caches s ! nat (shard_index s ky) \<in> set (caches s)" by simp
  with assms r show ?thesis by (simp add: shard_def store_ok_def)
qed

lemma set_shard_ok:
  assumes "store_ok s" and "cache_ok a" and "cache_ok b"
  shows "store_ok ((set_shard s idx (a, b))\<lparr>lru2_onEvictedCalls := l\<rparr>)"
proof -
  have "set ((caches s)[nat idx := (a, b)]) \<subseteq> insert (a, b) (set (caches s))"
    by (rule set_update_subset_insert)
  with assms show ?thesis by (auto simp: store_ok_def set_shard_def)
qed

lemma set_shard_ok': 
  assumes "store_ok s" and "cache_ok a" and "cache_ok b"
  shows "store_ok (set_shard s idx (a, b))"
  using set_shard_ok [OF assms, where idx = idx and l = "lru2_onEvictedCalls s"]
  by (simp add: set_shard_def)

lemma shard_index_set_shard:
  "shard_index ((set_shard s i sh')\<lparr>lru2_onEvictedCalls := l\<rparr>) ky = shard_index s ky"
  "shard_index (set_shard s i sh') ky = shard_index s ky"
  by (simp_all add: set_shard_def shard_index_def)

lemma shard_set_shard:
  assumes "shard s (shard_index s ky) = Some sh"
  shows "shard ((set_shard s (shard_index s ky) sh')\<lparr>lru2_onEvictedCalls := l\<rparr>)
           (shard_index s ky) = Some sh'"
    and "shard (set_shard s (shard_index s ky) sh') (shard_index s ky) = Some sh'"
  using assms by (auto simp: shard_def set_shard_def split: if_splits)

lemma levels_set_shard:
  assumes "shard s (shard_index s ky) = Some sh"
  shows "admission ((set_shard s (shard_index s ky) (a, b))\<lparr>lru2_onEvictedCalls := l\<rparr>) ky = live a ky"
    and "main_level ((set_shard s (shard_index s ky) (a, b))\<lparr>lru2_onEvictedCalls := l\<rparr>) ky = live b ky"
    and "admission (set_shard s (shard_index s ky) (a, b)) ky = live a ky"
    and "main_level (set_shard s (shard_index s ky) (a, b)) ky = live b ky"
  using shard_set_shard [OF assms] by (simp_all add: admission_def main_level_def shard_index_set_shard)

lemma set_shard_same:
  assumes "shard s idx = Some sh"
  shows "set_shard s idx sh = s"
  using assms by (auto simp: shard_def set_shard_def split: if_splits)

lemma lru2_delete_ok:
  assumes ok: "store_ok s"
  shows "\<exists>s' d. lru2_delete s ky (shard_index s ky) = Some (s', d) \<and> store_ok s'
           \<and> admission s' ky = None \<and> main_level s' ky = None"
proof -
  from shard_ok [OF ok] obtain sh where
    sh: "shard s (shard_index s ky) = Some sh" "cache_ok (fst sh)" "cache_ok (snd sh)" by blast
  from del_ok [OF sh(2), of ky] obtain c0 n1 s1 e1 where
    d0: "del (fst sh) ky = Some (c0, n1, s1, e1)" "cache_ok c0" "live c0 ky = None" by blast
  from del_ok [OF sh(3), of ky] obtain c1 n2 s2 e2 where
    d1: "del (snd sh) ky = Some (c1, n2, s2, e2)" "cache_ok c1" "live c1 ky = None" by blast
  from sh(1) d0 d1 set_shard_ok [OF ok d0(2) d1(2)] levels_set_shard [OF sh(1)]
  show ?thesis by (simp add: lru2_delete_def Let_def)
qed

lemma lru2_Get_from_admission:
  assumes ok: "store_ok s" and a: "admission s ky = Some nd" and t: "now < expireAt nd"
  shows "\<exists>s' nd'. lru2_Get s ky now now2 = Some (s', node_v nd, True) \<and> store_ok s'
           \<and> admission s' ky = None \<and> main_level s' ky = Some nd'
           \<and> node_v nd' = node_v nd \<and> expireAt nd' = expireAt nd"
proof -
  from shard_ok [OF ok] obtain sh where
    sh: "shard s (shard_index s ky) = Some sh" "cache_ok (fst sh)" "cache_ok (snd sh)" by blast
  from a sh(1) have lv: "live (fst sh) ky = Some nd" by (simp add: admission_def)
  then have pos: "0 < expireAt nd" by (auto simp: live_slot split: option.splits if_splits)
  from del_ok [OF sh(2), of ky] lv obtain c0 where
    d0: "del (fst sh) ky = Some (c0, Some (nd\<lparr>expireAt := 0\<rparr>), 1, expireAt nd)"
        "cache_ok c0" "live c0 ky = None" by auto
  from put_ok [OF sh(3), of ky "node_v nd" "expireAt nd" "lru2_hasOnEvicted s"]
  obtain c1 st ev nd' where
    p1: "put (snd sh) ky (node_v nd) (expireAt nd) (lru2_hasOnEvicted s) = Some (c1, st, ev)"
        "cache_ok c1" "slot c1 ky = Some nd'" "node_v nd' = node_v nd"
        "expireAt nd' = expireAt nd" by blast
  from p1(3,5) pos have lv1: "live c1 ky = Some nd'" by (simp add: live_slot)
  from sh(1) d0 p1 pos t lv1 set_shard_ok [OF ok d0(2) p1(2)] levels_set_shard [OF sh(1)]
  show ?thesis by (simp add: lru2_Get_def Let_def)
qed

lemma live_frame:
  assumes "cache_m c' = cache_m c" and "hmap c' = hmap c"
  shows "live c' ky = live c ky" and "slot c' ky = slot c ky"
proof -
  from assms have "node_at c' = node_at c" by (simp add: fun_eq_iff node_at_def)
  with assms show "live c' ky = live c ky" and "slot c' ky = slot c ky"
    by (simp_all add: live_def slot_def split: option.splits)
qed

lemma lru2_get_main_ok:
  assumes ok: "store_ok s" and sh: "shard s (shard_index s ky) = Some sh"
  shows "\<exists>s'. lru2_get s ky (shard_index s ky) 1 now2 =
            Some (s', (case live (snd sh) ky of
                         Some x \<Rightarrow> if now2 \<ge> expireAt x then (None, 0) else (Some x, 1)
                       | None \<Rightarrow> (None, 0)))
          \<and> store_ok s' \<and> admission s' ky = admission s ky
          \<and> main_level s' ky = main_level s ky
          \<and> shard_index s' ky = shard_index s ky"
proof -
  from shard_ok [OF ok, of ky] sh have c: "cache_ok (fst sh)" "cache_ok (snd sh)" by auto
  from get_ok [OF c(2), of ky] obtain c' where
    g: "get (snd sh) ky = Some (c', slot (snd sh) ky, if slot (snd sh) ky = None then 0 else 1)"
       "cache_ok c'" "cache_m c' = cache_m (snd sh)" "hmap c' = hmap (snd sh)" by blast
  note f = live_frame [OF g(3,4), of ky]
  from sh have lv: "admission s ky = live (fst sh) ky" "main_level s ky = live (snd sh) ky"
    by (simp_all add: admission_def main_level_def)
  from sh g(1) f lv set_shard_ok' [OF ok c(1) g(2)] levels_set_shard [OF sh]
  show ?thesis
    by (auto simp: lru2_get_def live_slot shard_index_set_shard split: option.splits)
qed

lemma lru2_Get_from_main:
  assumes ok: "store_ok s" and a: "admission s ky = None" and m: "main_level s ky = Some nd"
    and t: "now < expireAt nd" "now2 < expireAt nd"
  shows "\<exists>s'. lru2_Get s ky now now2 = Some (s', node_v nd, True) \<and> store_ok s'
           \<and> admission s' ky = None \<and> main_level s' ky = Some nd"
proof -
  from shard_ok [OF ok] obtain sh where
    sh: "shard s (shard_index s ky) = Some sh" "cache_ok (fst sh)" "cache_ok (snd sh)" by blast
  from a m sh(1) have lv: "live (fst sh) ky = None" "live (snd sh) ky = Some nd"
    by (simp_all add: admission_def main_level_def)
  from del_ok [OF sh(2), of ky] lv have
    d0: "del (fst sh) ky = Some (fst sh, None, 0, 0)" by auto
  from set_shard_same [OF sh(1)] have same: "set_shard s (shard_index s ky) (fst sh, snd sh) = s"
    by simp
  from lru2_get_main_ok [OF ok sh(1), of now2] lv t obtain s' where
    g: "lru2_get s ky (shard_index s ky) 1 now2 = Some (s', Some nd, 1)" "store_ok s'"
       "admission s' ky = admission s ky" "main_level s' ky = main_level s ky" by auto
  from sh(1) d0 same g a m t show ?thesis by (simp add: lru2_Get_def Let_def)
qed

lemma lru2_Get_ok:
  assumes ok: "store_ok s"
  shows "\<exists>s' r. lru2_Get s ky now now2 = Some (s', r) \<and> store_ok s' \<and> admission s' ky = None"
proof -
  from shard_ok [OF ok] obtain sh where
    sh: "shard s (shard_index s ky) = Some sh" "cache_ok (fst sh)" "cache_ok (snd sh)" by blast
  show ?thesis
  proof (cases "live (fst sh) ky")
    case (Some nd)
    with sh(1) have a: "admission s ky = Some nd" by (simp add: admission_def)
    show ?thesis
    proof (cases "now < expireAt nd")
      case True
      from lru2_Get_from_admission [OF ok a True, of now2] show ?thesis by blast
    next
      case False
      from Some have pos: "0 < expireAt nd" by (auto simp: live_slot split: option.splits if_splits)
      from del_ok [OF sh(2), of ky] Some obtain c0 where
        d0: "del (fst sh) ky = Some (c0, Some (nd\<lparr>expireAt := 0\<rparr>), 1, expireAt nd)"
            "cache_ok c0" by auto
      let ?s1 = "set_shard s (shard_index s ky) (c0, snd sh)"
      from set_shard_ok' [OF ok d0(2) sh(3)] have ok1: "store_ok ?s1" .
      from lru2_delete_ok [OF ok1, of ky]
      obtain s2 d where
        "lru2_delete ?s1 ky (shard_index s ky) = Some (s2, d)" "store_ok s2"
        "admission s2 ky = None" by (auto simp: shard_index_set_shard)
      with sh(1) d0 pos False show ?thesis by (auto simp: lru2_Get_def Let_def)
    qed
  next
    case None
    with sh(1) have a: "admission s ky = None" by (simp add: admission_def)
    from del_ok [OF sh(2), of ky] None have
      d0: "del (fst sh) ky = Some (fst sh, None, 0, 0)" by auto
    from set_shard_same [OF sh(1)] have same: "set_shard s (shard_index s ky) (fst sh, snd sh) = s"
      by simp
    from lru2_get_main_ok [OF ok sh(1), of now2] obtain s2 r2 where
      g0: "lru2_get s ky (shard_index s ky) 1 now2 = Some (s2, r2)" and
      g': "store_ok s2" "admission s2 ky = admission s ky"
          "shard_index s2 ky = shard_index s ky" by blast
    obtain n2 st2 where "r2 = (n2, st2)" by (cases r2)
    with g0 g' have
      g: "lru2_get s ky (shard_index s ky) 1 now2 = Some (s2, n2, st2)" "store_ok s2"
         "admission s2 ky = admission s ky" "shard_index s2 ky = shard_index s ky" by simp_all
    from lru2_delete_ok [OF g(2), of ky] g(4) obtain s3 d where
      dl: "lru2_delete s2 ky (shard_index s ky) = Some (s3, d)" "store_ok s3"
          "admission s3 ky = None" by auto
    from sh(1) d0 same g a dl show ?thesis
      by (auto simp: lru2_Get_def Let_def split: option.splits)
  qed
qed

lemma lru2_SetWithExpiration_ok:
  assumes ok: "store_ok s"
  shows "\<exists>s' nd. lru2_SetWithExpiration s ky vl d now = Some s' \<and> store_ok s'
           \<and> map snd (caches s') = map snd (caches s) \<and> mask s' = mask s
           \<and> (let ex = (if d > 0 then wrap64 (now + d) else 0)
              in admission s' ky = (if ex > 0 then Some nd else None)
                 \<and> node_v nd = vl \<and> expireAt nd = ex)"
proof -
  from shard_ok [OF ok] obtain sh where
    sh: "shard s (shard_index s ky) = Some sh" "cache_ok (fst sh)" "cache_ok (snd sh)" by blast
  let ?ex = "if d > 0 then wrap64 (now + d) else 0"
  from put_ok [OF sh(2), of ky vl ?ex "lru2_hasOnEvicted s"]
  obtain c0 st ev nd where
    p0: "put (fst sh) ky vl ?ex (lru2_hasOnEvicted s) = Some (c0, st, ev)"
        "cache_ok c0" "slot c0 ky = Some nd" "node_v nd = vl" "expireAt nd = ?ex" by blast
  from p0(3,5) have lv: "live c0 ky = (if ?ex > 0 then Some nd else None)" by (simp add: live_slot)
  from sh(1) have "map snd ((caches s)[nat (shard_index s ky) := (c0, snd sh)]) = map snd (caches s)"
    by (auto simp: shard_def map_update list_update_same_conv split: if_splits)
  with sh(1) p0 lv set_shard_ok [OF ok p0(2) sh(3)] levels_set_shard [OF sh(1)]
  show ?thesis
    by (auto simp: lru2_SetWithExpiration_def Let_def set_shard_def intro!: exI [of _ nd])
qed

lemma main_level_cong:
  assumes "map snd (caches s') = map snd (caches s)" and "mask s' = mask s"
  shows "main_level s' ky = main_level s ky"
proof -
  from assms(1) have len: "length (caches s') = length (caches s)" by (metis length_map)
  from assms(2) have idx: "shard_index s' ky = shard_index s ky" by (simp add: shard_index_def)
  show ?thesis
  proof (cases "0 \<le> shard_index s ky \<and> nat (shard_index s ky) < length (caches s)")
    case True
    with len have "snd (caches s' ! nat (shard_index s ky)) = map snd (caches s') ! nat (shard_index s ky)"
      by simp
    also from assms(1) True have "\<dots> = snd (caches s ! nat (shard_index s ky))" by simp
    finally show ?thesis using True len idx by (simp add: main_level_def shard_def)
  next
    case False
    with len idx show ?thesis by (auto simp: main_level_def shard_def)
  qed
qed






lemma replicate_numeral: "replicate (numeral k) x = x # replicate (pred_numeral k) x"
  by (simp add: numeral_eq_Suc)

lemmas lru2_eval =
  newLRU2Cache_def maskOfNextPowOf2_def Create_def store_ok_def cache_ok_def links_ok_def
  lru2_Set_def lru2_SetWithExpiration_def shard_index_def shard_def set_shard_def put_def
  rd_def wr_def node_at_def node_set_def adjust_def link_p_def link_n_def hashBKRD_def
  wrap32_def wrap64_def lru2_Get_def lru2_get_def get_def del_def lru2_delete_def
  lru2_Delete_def admission_def main_level_def live_def Let_def replicate_numeral

text \<open>
  Promotion on a well-formed store. If \<^verbatim>\<open>Get(k)\<close> finds \<open>k\<close> live in the admission level
  of its shard and \<open>k\<close> is not expired at the clock value \<open>now\<close> that the call reads, the
  call returns the stored value with \<^verbatim>\<open>true\<close>, leaves \<open>k\<close> deleted in the admission level
  and live in the main level with the same value and the same expiry. A second \<^verbatim>\<open>Get(k)\<close>
  before the expiry returns the value again and \<open>k\<close> stays in the main level. The store
  is assumed to satisfy \<open>store_ok\<close>, which holds of a store built with at most 32768
  buckets and capacities below 65535 (\<open>newLRU2Cache_ok\<close>).
\<close>

theorem lru2_Get_promotes:
  assumes "store_ok s" and "admission s ky = Some nd" and "now < expireAt nd"
  shows "\<exists>s' nd'. lru2_Get s ky now now2 = Some (s', node_v nd, True)
           \<and> admission s' ky = None
           \<and> main_level s' ky = Some nd' \<and> node_v nd' = node_v nd \<and> expireAt nd' = expireAt nd
           \<and> (\<forall>t t2. t < expireAt nd \<and> t2 < expireAt nd \<longrightarrow>
                 (\<exists>s''. lru2_Get s' ky t t2 = Some (s'', node_v nd, True)
                        \<and> admission s'' ky = None \<and> main_level s'' ky = Some nd'))"
proof -
  from lru2_Get_from_admission [OF assms, of now2] obtain s' nd' where
    g: "lru2_Get s ky now now2 = Some (s', node_v nd, True)" "store_ok s'"
       "admission s' ky = None" "main_level s' ky = Some nd'"
       "node_v nd' = node_v nd" "expireAt nd' = expireAt nd" by blast
  have "\<exists>s''. lru2_Get s' ky t t2 = Some (s'', node_v nd, True)
              \<and> admission s'' ky = None \<and> main_level s'' ky = Some nd'"
    if "t < expireAt nd \<and> t2 < expireAt nd" for t t2
    using lru2_Get_from_main [OF g(2) g(3) g(4), of t t2] that g(5,6) by auto
  with g show ?thesis by blast
qed

theorem lru2_Get_promotes_witness:
  "(let s = the (lru2_Set (newLRU2Cache 1 2 2 False) ''k'' (Some (ByteView ''a'')) 100);
        nd = \<lparr>node_k = ''k'', node_v = Some (ByteView ''a''), expireAt = 10000000000000099\<rparr>
    in store_ok s \<and> admission s ''k'' = Some nd \<and> 200 < expireAt nd
       \<and> (\<exists>s' nd'. lru2_Get s ''k'' 200 200 = Some (s', node_v nd, True)
            \<and> admission s' ''k'' = None
            \<and> main_level s' ''k'' = Some nd' \<and> node_v nd' = node_v nd
            \<and> expireAt nd' = expireAt nd
            \<and> (\<forall>t t2. t < expireAt nd \<and> t2 < expireAt nd \<longrightarrow>
                 (\<exists>s''. lru2_Get s' ''k'' t t2 = Some (s'', node_v nd, True)
                        \<and> admission s'' ''k'' = None \<and> main_level s'' ''k'' = Some nd'))))"
proof -
  let ?s = "the (lru2_Set (newLRU2Cache 1 2 2 False) ''k'' (Some (ByteView ''a'')) 100)"
  let ?nd = "\<lparr>node_k = ''k'', node_v = Some (ByteView ''a''), expireAt = 10000000000000099\<rparr>"
  have h1: "store_ok ?s" by (simp add: lru2_eval)
  have h2: "admission ?s ''k'' = Some ?nd" by (simp add: lru2_eval)
  have h3: "200 < expireAt ?nd" by simp
  from lru2_Get_promotes [OF h1 h2 h3, of 200] h1 h2 h3 show ?thesis
    unfolding Let_def by blast
qed

text \<open>
  A store built with \<^verbatim>\<open>Level2Cap = 65535\<close>: \<^verbatim>\<open>Create(65535)\<close> makes \<^verbatim>\<open>cap+1\<close> links, and the
  sum is 0 in \<^verbatim>\<open>uint16\<close>, so the main level has no links at all and \<^verbatim>\<open>put\<close> on it panics
  at \<^verbatim>\<open>c.dlnk[0][p]\<close>.
\<close>

lemma put_Create_65535: "put (Create 65535) ky vl ex cb = None"
  by (simp add: put_def Create_def wr_def Let_def)

lemma Create_2:
  "Create 2 = \<lparr>dlnk = [(0, 0), (0, 0), (0, 0)],
      cache_m = [\<lparr>node_k = [], node_v = None, expireAt = 0\<rparr>,
                 \<lparr>node_k = [], node_v = None, expireAt = 0\<rparr>],
      hmap = [], cache_last = 0\<rparr>"
  by (simp add: Create_def replicate_numeral)

lemma newLRU2Cache_1_2_65535:
  "newLRU2Cache 1 2 65535 False =
     \<lparr>caches = [(Create 2, Create 65535)], mask = 0, lru2_hasOnEvicted = False,
      lru2_onEvictedCalls = []\<rparr>"
  by (simp add: newLRU2Cache_def maskOfNextPowOf2_def Let_def)

lemma Set_on_Level2Cap_65535:
  "lru2_Set (newLRU2Cache 1 2 65535 False) ''k'' (Some (ByteView ''a'')) 100
     = Some \<lparr>caches =
               [(\<lparr>dlnk = [(1, 1), (0, 0), (0, 0)],
                  cache_m = [\<lparr>node_k = ''k'', node_v = Some (ByteView ''a''),
                               expireAt = 10000000000000099\<rparr>,
                             \<lparr>node_k = [], node_v = None, expireAt = 0\<rparr>],
                  hmap = [(''k'', 1)], cache_last = 1\<rparr>,
                 Create 65535)],
              mask = 0, lru2_hasOnEvicted = False, lru2_onEvictedCalls = []\<rparr>"
  unfolding newLRU2Cache_1_2_65535 Create_2
  by (simp add: lru2_Set_def lru2_SetWithExpiration_def shard_index_def shard_def
        set_shard_def put_def rd_def wr_def node_at_def node_set_def adjust_def link_p_def
        link_n_def hashBKRD_def wrap32_def wrap64_def Let_def)

text \<open>
  Claim C7. For every LRU-2 store, a \<^verbatim>\<open>Get(k)\<close> that finds \<open>k\<close> in the admission level,
  not expired, removes it there, inserts it into the main level and returns
  \<^verbatim>\<open>(value, true)\<close>. On the store built by \<^verbatim>\<open>newLRU2Cache\<close> with \<^verbatim>\<open>BucketCount = 1\<close>,
  \<^verbatim>\<open>CapPerBucket = 2\<close> and \<^verbatim>\<open>Level2Cap = 65535\<close>, after \<^verbatim>\<open>Set("k", "a")\<close> at time 100 the
  key \<open>k\<close> is live in the admission level with value \<open>a\<close> and an expiry after 200, and
  \<^verbatim>\<open>Get("k")\<close> at time 200 does not return: it panics in \<^verbatim>\<open>put\<close> on the main level, after
  the admission slot has been deleted.
\<close>

theorem lru2_Get_panics_for_Level2Cap_65535:
  "(do { s1 \<leftarrow> lru2_Set (newLRU2Cache 1 2 65535 False) ''k'' (Some (ByteView ''a'')) 100;
         Some (map_option (\<lambda>nd. (node_v nd, 200 < expireAt nd)) (admission s1 ''k''),
               lru2_Get s1 ''k'' 200 200) })
   = Some (Some (Some (ByteView ''a''), True), None)"
  unfolding Set_on_Level2Cap_65535
  by (simp add: lru2_Get_def shard_index_def shard_def set_shard_def del_def
        rd_def wr_def node_at_def node_set_def adjust_def link_p_def link_n_def hashBKRD_def
        wrap32_def wrap64_def admission_def live_def Let_def put_Create_65535)

text \<open>
  Claim C2. Every live key is present in at most one level of its shard after any
  sequence of operations, and \<^verbatim>\<open>Set\<close> on a key resident in the main level updates that
  slot in place. On a new store with one shard, both capacities 2 and an \<^verbatim>\<open>onEvicted\<close>
  callback, the calls \<^verbatim>\<open>Set("k", "a")\<close>, \<^verbatim>\<open>Get("k")\<close>, \<^verbatim>\<open>Set("k", "b")\<close>, \<^verbatim>\<open>Set("x", "c")\<close>,
  \<^verbatim>\<open>Set("y", "d")\<close>, \<^verbatim>\<open>Get("k")\<close> give: the first \<^verbatim>\<open>Get\<close> returns \<open>a\<close> and promotes \<open>k\<close>; after
  the third call \<open>k\<close> is live in the admission level with \<open>b\<close> and live in the main level
  with \<open>a\<close>; the fifth call recycles the admission slot of \<open>k\<close> and calls
  \<^verbatim>\<open>onEvicted("k", "b")\<close>; the last \<^verbatim>\<open>Get\<close> returns \<^verbatim>\<open>("a", true)\<close>, the value that
  \<^verbatim>\<open>Set("k", "b")\<close> had replaced.
\<close>

theorem lru2_Set_on_main_key_gives_stale_Get:
  "(do { s1 \<leftarrow> lru2_Set (newLRU2Cache 1 2 2 True) ''k'' (Some (ByteView ''a'')) 100;
         (s2, r2) \<leftarrow> lru2_Get s1 ''k'' 200 200;
         s3 \<leftarrow> lru2_Set s2 ''k'' (Some (ByteView ''b'')) 300;
         s4 \<leftarrow> lru2_Set s3 ''x'' (Some (ByteView ''c'')) 400;
         s5 \<leftarrow> lru2_Set s4 ''y'' (Some (ByteView ''d'')) 500;
         (s6, r6) \<leftarrow> lru2_Get s5 ''k'' 600 600;
         Some (r2, map_option node_v (admission s3 ''k''),
                   map_option node_v (main_level s3 ''k''),
               lru2_onEvictedCalls s5, r6) })
   = Some ((Some (ByteView ''a''), True),
           Some (Some (ByteView ''b'')), Some (Some (ByteView ''a'')),
           [(''k'', Some (ByteView ''b''))], (Some (ByteView ''a''), True))"
  by (simp add: lru2_eval)

text \<open>
  What the operations do to the two levels of a well-formed store, for every key.
  \<^verbatim>\<open>SetWithExpiration\<close> writes the admission level only: the main level of every shard
  is as before, and the key is live in the admission level with the new value whenever
  the new \<^verbatim>\<open>expireAt\<close> is positive. After \<^verbatim>\<open>Get(k)\<close> the key \<open>k\<close> is not live in the
  admission level; after \<^verbatim>\<open>Delete(k)\<close> it is live in neither level.
\<close>

theorem lru2_levels_after_operation:
  assumes "store_ok s"
  shows "(\<exists>s' nd. lru2_SetWithExpiration s ky vl d now = Some s'
            \<and> map snd (caches s') = map snd (caches s)
            \<and> main_level s' ky = main_level s ky
            \<and> node_v nd = vl \<and> expireAt nd = (if d > 0 then wrap64 (now + d) else 0)
            \<and> admission s' ky = (if expireAt nd > 0 then Some nd else None))
       \<and> (\<exists>s' r. lru2_Get s ky now now2 = Some (s', r) \<and> admission s' ky = None)
       \<and> (\<exists>s' r. lru2_Delete s ky = Some (s', r)
            \<and> admission s' ky = None \<and> main_level s' ky = None)"
proof -
  from lru2_SetWithExpiration_ok [OF assms, of ky vl d now] obtain s1 nd where
    s1: "lru2_SetWithExpiration s ky vl d now = Some s1"
        "map snd (caches s1) = map snd (caches s)" "mask s1 = mask s"
        "node_v nd = vl" "expireAt nd = (if d > 0 then wrap64 (now + d) else 0)"
        "admission s1 ky = (if expireAt nd > 0 then Some nd else None)"
    by (auto simp: Let_def)
  from main_level_cong [OF s1(2,3)] have "main_level s1 ky = main_level s ky" .
  with s1 have A: "\<exists>s' nd. lru2_SetWithExpiration s ky vl d now = Some s'
            \<and> map snd (caches s') = map snd (caches s)
            \<and> main_level s' ky = main_level s ky
            \<and> node_v nd = vl \<and> expireAt nd = (if d > 0 then wrap64 (now + d) else 0)
            \<and> admission s' ky = (if expireAt nd > 0 then Some nd else None)" by blast
  from lru2_Get_ok [OF assms, of ky now now2]
  have B: "\<exists>s' r. lru2_Get s ky now now2 = Some (s', r) \<and> admission s' ky = None" by blast
  from lru2_delete_ok [OF assms, of ky]
  have C: "\<exists>s' r. lru2_Delete s ky = Some (s', r)
            \<and> admission s' ky = None \<and> main_level s' ky = None"
    by (auto simp: lru2_Delete_def)
  from A B C show ?thesis by blast
qed

theorem lru2_levels_after_operation_witness:
  "(let s = fst (the (lru2_Set (newLRU2Cache 1 2 2 False) ''k'' (Some (ByteView ''a'')) 100
                        \<bind> (\<lambda>s1. lru2_Get s1 ''k'' 200 200)))
    in store_ok s
       \<and> map_option node_v (main_level s ''k'') = Some (Some (ByteView ''a''))
       \<and> (\<exists>s' nd. lru2_SetWithExpiration s ''k'' (Some (ByteView ''b'')) 5 300 = Some s'
            \<and> map snd (caches s') = map snd (caches s)
            \<and> main_level s' ''k'' = main_level s ''k''
            \<and> node_v nd = Some (ByteView ''b'')
            \<and> expireAt nd = (if (5::int) > 0 then wrap64 (300 + 5) else 0)
            \<and> admission s' ''k'' = (if expireAt nd > 0 then Some nd else None))
       \<and> (\<exists>s' r. lru2_Get s ''k'' 300 300 = Some (s', r) \<and> admission s' ''k'' = None)
       \<and> (\<exists>s' r. lru2_Delete s ''k'' = Some (s', r)
            \<and> admission s' ''k'' = None \<and> main_level s' ''k'' = None))"
proof -
  let ?s = "fst (the (lru2_Set (newLRU2Cache 1 2 2 False) ''k'' (Some (ByteView ''a'')) 100
                        \<bind> (\<lambda>s1. lru2_Get s1 ''k'' 200 200)))"
  have h: "store_ok ?s" by (simp add: lru2_eval)
  have m: "map_option node_v (main_level ?s ''k'') = Some (Some (ByteView ''a''))"
    by (simp add: lru2_eval)
  from lru2_levels_after_operation
         [OF h, where ky = "''k''" and vl = "Some (ByteView ''b'')" and d = 5 and now = 300
                  and ?now2.0 = 300] h m
  show ?thesis unfolding Let_def by blast
qed
section \<open>Properties of the consistent hash ring\<close>

lemma Search_loop_step:
  "Search_loop f i j =
     (if i < j then (if \<not> f ((i + j) div 2) then Search_loop f ((i + j) div 2 + 1) j
                     else Search_loop f i ((i + j) div 2))
      else i)"
  by (subst Search_loop.simps) (simp only: Let_def)

text \<open>
  The binary search, for a predicate that stays true once it is true below \<open>n\<close>: the
  result is the first index where it holds, or the upper bound.
\<close>

lemma Search_loop_spec:
  assumes "i \<le> j" and "j \<le> n"
    and "\<forall>k<i. \<not> f k" and "\<forall>k. j \<le> k \<and> k < n \<longrightarrow> f k"
    and mono: "\<forall>a b. a \<le> b \<and> b < n \<and> f a \<longrightarrow> f b"
  shows "i \<le> Search_loop f i j \<and> Search_loop f i j \<le> j
         \<and> (\<forall>k < Search_loop f i j. \<not> f k)
         \<and> (\<forall>k. Search_loop f i j \<le> k \<and> k < n \<longrightarrow> f k)"
  using assms
proof (induction f i j rule: Search_loop.induct)
  case (1 f i j)
  show ?case
  proof (cases "i < j")
    case False
    with "1.prems"(1) have ij: "i = j" by simp
    have e: "Search_loop f i j = i" using False by (subst Search_loop_step) simp
    from "1.prems"(3,4) ij show ?thesis unfolding e by simp
  next
    case True
    let ?h = "(i + j) div 2"
    from True have h: "i \<le> ?h" "?h < j" by auto
    show ?thesis
    proof (cases "f ?h")
      case False
      have e: "Search_loop f i j = Search_loop f (?h + 1) j"
        using True False by (subst Search_loop_step) simp
      have nf: "\<forall>k<?h + 1. \<not> f k"
      proof (intro allI impI)
        fix k assume "k < ?h + 1"
        then have k: "k \<le> ?h" by simp
        from h "1.prems"(2) have "?h < n" by simp
        with k False "1.prems"(5) show "\<not> f k" by blast
      qed
      from h have le: "?h + 1 \<le> j" by simp
      have IH: "?h + 1 \<le> Search_loop f (?h + 1) j \<and> Search_loop f (?h + 1) j \<le> j
         \<and> (\<forall>k < Search_loop f (?h + 1) j. \<not> f k)
         \<and> (\<forall>k. Search_loop f (?h + 1) j \<le> k \<and> k < n \<longrightarrow> f k)"
        by (rule "1.IH"(1) [OF True refl False le "1.prems"(2) nf "1.prems"(4) "1.prems"(5)])
      from IH h show ?thesis unfolding e by auto
    next
      case fh: True
      have e: "Search_loop f i j = Search_loop f i ?h"
        using True fh by (subst Search_loop_step) simp
      have ge: "\<forall>k. ?h \<le> k \<and> k < n \<longrightarrow> f k"
        using fh "1.prems"(5) by blast
      from h "1.prems"(2) have hn: "?h \<le> n" by simp
      have nn: "\<not> \<not> f ?h" using fh by simp
      have IH: "i \<le> Search_loop f i ?h \<and> Search_loop f i ?h \<le> ?h
         \<and> (\<forall>k < Search_loop f i ?h. \<not> f k)
         \<and> (\<forall>k. Search_loop f i ?h \<le> k \<and> k < n \<longrightarrow> f k)"
        by (rule "1.IH"(2) [OF True refl nn h(1) hn "1.prems"(3) ge "1.prems"(5)])
      from IH h show ?thesis unfolding e by auto
    qed
  qed
qed

lemma Search_sorted:
  assumes "sorted ks"
  shows "Search (length ks) (\<lambda>i. h \<le> ks ! i) \<le> length ks
         \<and> (\<forall>k < Search (length ks) (\<lambda>i. h \<le> ks ! i). ks ! k < h)
         \<and> (\<forall>k. Search (length ks) (\<lambda>i. h \<le> ks ! i) \<le> k \<and> k < length ks \<longrightarrow> h \<le> ks ! k)"
proof -
  let ?f = "\<lambda>i. h \<le> ks ! i"
  have mono: "\<forall>a b. a \<le> b \<and> b < length ks \<and> ?f a \<longrightarrow> ?f b"
  proof (intro allI impI)
    fix a b assume ab: "a \<le> b \<and> b < length ks \<and> h \<le> ks ! a"
    with assms have "ks ! a \<le> ks ! b" by (simp add: sorted_nth_mono)
    with ab show "h \<le> ks ! b" by (blast intro: order_trans)
  qed
  have "0 \<le> Search_loop ?f 0 (length ks) \<and> Search_loop ?f 0 (length ks) \<le> length ks
         \<and> (\<forall>k < Search_loop ?f 0 (length ks). \<not> ?f k)
         \<and> (\<forall>k. Search_loop ?f 0 (length ks) \<le> k \<and> k < length ks \<longrightarrow> ?f k)"
    by (rule Search_loop_spec [OF _ _ _ _ mono]) auto
  then show ?thesis by (simp add: Search_def not_le)
qed

lemma ring_index_first:
  assumes s: "sorted (keys m)" and ne: "keys m \<noteq> []"
  shows "ring_index m ky < length (keys m)"
    and "\<exists>j<length (keys m). HashFunc (config m) ky \<le> keys m ! j \<Longrightarrow>
           HashFunc (config m) ky \<le> keys m ! ring_index m ky
           \<and> (\<forall>j<ring_index m ky. keys m ! j < HashFunc (config m) ky)"
    and "\<not> (\<exists>j<length (keys m). HashFunc (config m) ky \<le> keys m ! j) \<Longrightarrow> ring_index m ky = 0"
proof -
  let ?h = "HashFunc (config m) ky"
  let ?r = "Search (length (keys m)) (\<lambda>i. ?h \<le> keys m ! i)"
  note S = Search_sorted [OF s, of ?h]
  from ne have pos: "0 < length (keys m)" by simp
  have idx: "ring_index m ky = (if ?r = length (keys m) then 0 else ?r)"
    by (simp add: ring_index_def Let_def)
  from S pos show "ring_index m ky < length (keys m)" unfolding idx by auto
  {
    assume "\<exists>j<length (keys m). ?h \<le> keys m ! j"
    then obtain j where j: "j < length (keys m)" "?h \<le> keys m ! j" by blast
    have "?r \<noteq> length (keys m)"
    proof
      assume "?r = length (keys m)"
      with S j(1) have "keys m ! j < ?h" by simp
      with j(2) show False by simp
    qed
    with S have "?r < length (keys m)" by simp
    with S \<open>?r \<noteq> length (keys m)\<close>
    show "?h \<le> keys m ! ring_index m ky \<and> (\<forall>j<ring_index m ky. keys m ! j < ?h)"
      unfolding idx by simp
  }
  {
    assume no: "\<not> (\<exists>j<length (keys m). ?h \<le> keys m ! j)"
    have "?r = length (keys m)"
    proof (rule ccontr)
      assume "?r \<noteq> length (keys m)"
      with S have lt: "?r < length (keys m)" by simp
      with S have "?h \<le> keys m ! ?r" by simp
      with no lt show False by blast
    qed
    then show "ring_index m ky = 0" unfolding idx by simp
  }
qed

lemma ring_Add_sorted: "nodes \<noteq> [] \<Longrightarrow> sorted (keys (fst (ring_Add m nodes)))"
  by (simp add: ring_Add_def Let_def)

text \<open>
  Claim C5, as stated: for every key, \<^verbatim>\<open>Get\<close> on a ring that holds virtual nodes returns
  \<^verbatim>\<open>hashMap[keys[i]]\<close> and counts the request. On the ring with the one node \<^verbatim>\<open>"A"\<close> the
  lookup of the empty key would give \<^verbatim>\<open>"A"\<close>, but \<^verbatim>\<open>Get("")\<close> returns \<^verbatim>\<open>""\<close> and leaves the
  ring, with its counters, as it is: \<^verbatim>\<open>Get\<close> starts with \<^verbatim>\<open>if key == "" { return "" }\<close>.
\<close>

theorem ring_Get_empty_key_counterexample:
  "(let r = fst (ring_Add (ring_New \<lparr>DefaultReplicas = 3, MinReplicas = 1, MaxReplicas = 10,
                                     HashFunc = (\<lambda>s. hashBKRD s mod 100)\<rparr>) [''A''])
    in keys r = [8, 9, 10]
       \<and> map_of (hashMap r) (keys r ! ring_index r []) = Some ''A''
       \<and> ring_Get r [] = (r, []))"
proof -
  let ?r = "fst (ring_Add (ring_New \<lparr>DefaultReplicas = 3, MinReplicas = 1, MaxReplicas = 10,
                                     HashFunc = (\<lambda>s. hashBKRD s mod 100)\<rparr>) [''A''])"
  have 1: "keys ?r = [8, 9, 10]" by code_simp
  have 2: "map_of (hashMap ?r) (keys ?r ! ring_index ?r []) = Some ''A''" by code_simp
  have 3: "ring_Get ?r [] = (?r, [])" by (simp add: ring_Get_def)
  from 1 2 3 show ?thesis unfolding Let_def by blast
qed

text \<open>
  Claim C5, amended. \<^verbatim>\<open>Get\<close> of the empty key returns \<^verbatim>\<open>""\<close> and changes nothing, and so does
  \<^verbatim>\<open>Get\<close> on a ring without virtual nodes. For a key that is not empty, on a ring whose
  \<^verbatim>\<open>keys\<close> are sorted and not empty, the index \<open>i\<close> computed is the first one with
  \<^verbatim>\<open>keys[i] \<ge> H(key)\<close>, or 0 when there is none; the result is \<^verbatim>\<open>hashMap[keys[i]]\<close>, the
  count of that node is one more than before, the other counts are as before,
  \<^verbatim>\<open>totalRequests\<close> is one more, and the rest of the ring is unchanged.
\<close>

theorem ring_Get_spec:
  "ring_Get m [] = (m, [])
   \<and> (keys m = [] \<longrightarrow> ring_Get m ky = (m, []))
   \<and> (ky \<noteq> [] \<and> keys m \<noteq> [] \<and> sorted (keys m) \<longrightarrow>
        (let h = HashFunc (config m) ky;
             i = ring_index m ky;
             node = (case map_of (hashMap m) (keys m ! i) of Some x \<Rightarrow> x | None \<Rightarrow> []);
             m' = fst (ring_Get m ky)
         in i < length (keys m)
            \<and> (if \<exists>j<length (keys m). h \<le> keys m ! j
               then h \<le> keys m ! i \<and> (\<forall>j<i. keys m ! j < h) else i = 0)
            \<and> snd (ring_Get m ky) = node
            \<and> map_of (nodeCounts m') node
                = Some ((case map_of (nodeCounts m) node of Some c \<Rightarrow> c | None \<Rightarrow> 0) + 1)
            \<and> (\<forall>x. x \<noteq> node \<longrightarrow> map_of (nodeCounts m') x = map_of (nodeCounts m) x)
            \<and> totalRequests m' = totalRequests m + 1
            \<and> keys m' = keys m \<and> hashMap m' = hashMap m
            \<and> nodeReplicas m' = nodeReplicas m \<and> config m' = config m))"
proof (intro conjI impI)
  show "ring_Get m [] = (m, [])" by (simp add: ring_Get_def)
next
  assume "keys m = []"
  then show "ring_Get m ky = (m, [])" by (simp add: ring_Get_def)
next
  assume a: "ky \<noteq> [] \<and> keys m \<noteq> [] \<and> sorted (keys m)"
  then have s: "sorted (keys m)" and ne: "keys m \<noteq> []" and k: "ky \<noteq> []" by simp_all
  note I = ring_index_first [OF s ne, of ky]
  let ?i = "ring_index m ky"
  let ?node = "case map_of (hashMap m) (keys m ! ?i) of Some x \<Rightarrow> x | None \<Rightarrow> []"
  let ?count = "case map_of (nodeCounts m) ?node of Some c \<Rightarrow> c | None \<Rightarrow> 0"
  have g: "ring_Get m ky =
             (m\<lparr>nodeCounts := AList.update ?node (?count + 1) (nodeCounts m),
                totalRequests := totalRequests m + 1\<rparr>, ?node)"
    using k ne by (simp add: ring_Get_def Let_def)
  have first: "if \<exists>j<length (keys m). HashFunc (config m) ky \<le> keys m ! j
        then HashFunc (config m) ky \<le> keys m ! ?i
             \<and> (\<forall>j<?i. keys m ! j < HashFunc (config m) ky)
        else ?i = 0"
  proof (cases "\<exists>j<length (keys m). HashFunc (config m) ky \<le> keys m ! j")
    case True
    show ?thesis unfolding if_P [OF True] by (rule I(2) [OF True])
  next
    case False
    show ?thesis unfolding if_not_P [OF False] by (rule I(3) [OF False])
  qed
  from I(1) first show
    "let h = HashFunc (config m) ky;
         i = ring_index m ky;
         node = (case map_of (hashMap m) (keys m ! i) of Some x \<Rightarrow> x | None \<Rightarrow> []);
         m' = fst (ring_Get m ky)
     in i < length (keys m)
        \<and> (if \<exists>j<length (keys m). h \<le> keys m ! j
           then h \<le> keys m ! i \<and> (\<forall>j<i. keys m ! j < h) else i = 0)
        \<and> snd (ring_Get m ky) = node
        \<and> map_of (nodeCounts m') node
            = Some ((case map_of (nodeCounts m) node of Some c \<Rightarrow> c | None \<Rightarrow> 0) + 1)
        \<and> (\<forall>x. x \<noteq> node \<longrightarrow> map_of (nodeCounts m') x = map_of (nodeCounts m) x)
        \<and> totalRequests m' = totalRequests m + 1
        \<and> keys m' = keys m \<and> hashMap m' = hashMap m
        \<and> nodeReplicas m' = nodeReplicas m \<and> config m' = config m"
    unfolding Let_def g by (simp add: update_conv')
qed

theorem ring_Get_spec_witness:
  "(let r = fst (ring_Add (ring_New \<lparr>DefaultReplicas = 3, MinReplicas = 1, MaxReplicas = 10,
                                     HashFunc = (\<lambda>s. hashBKRD s mod 100)\<rparr>) [''A'', ''B''])
    in ''hello'' \<noteq> [] \<and> keys r = [8, 9, 10, 69, 70, 71] \<and> sorted (keys r)
       \<and> HashFunc (config r) ''hello'' = 50
       \<and> ring_index r ''hello'' = 3
       \<and> snd (ring_Get r ''hello'') = ''B''
       \<and> map_of (nodeCounts (fst (ring_Get r ''hello''))) ''B'' = Some 1
       \<and> totalRequests (fst (ring_Get r ''hello'')) = 1)"
proof -
  let ?r = "fst (ring_Add (ring_New \<lparr>DefaultReplicas = 3, MinReplicas = 1, MaxReplicas = 10,
                                     HashFunc = (\<lambda>s. hashBKRD s mod 100)\<rparr>) [''A'', ''B''])"
  have k: "keys ?r = [8, 9, 10, 69, 70, 71]" by code_simp
  have s: "sorted (keys ?r)" by (rule ring_Add_sorted) simp
  have h: "HashFunc (config ?r) ''hello'' = 50" by code_simp
  have i: "ring_index ?r ''hello'' = 3" by code_simp
  have hm: "map_of (hashMap ?r) 69 = Some ''B''" by code_simp
  have nc: "map_of (nodeCounts ?r) ''B'' = None" by code_simp
  have tr: "totalRequests ?r = 0" by code_simp
  have ne: "''hello'' \<noteq> [] \<and> keys ?r \<noteq> [] \<and> sorted (keys ?r)" using k s by simp
  from ring_Get_spec [of ?r "''hello''"] ne
  have "snd (ring_Get ?r ''hello'') = ''B''
        \<and> map_of (nodeCounts (fst (ring_Get ?r ''hello''))) ''B'' = Some 1
        \<and> totalRequests (fst (ring_Get ?r ''hello'')) = 1"
    unfolding Let_def i k by (simp add: hm [unfolded k] nc tr)
  with k s h i show ?thesis unfolding Let_def by simp
qed


subsection \<open>The adaptive rebalance\<close>

lemma ring_Remove_held:
  "ring_Remove True m node = (if node = [] then Some (m, Some ''invalid node'') else None)"
  by (simp add: ring_Remove_def)

lemma rebalance_step_Some:
  "rebalance_step scaled tot nodes nc (Some m) =
     (if clampReplicas (config m)
           (scaled tot nodes (snd nc)
              (case map_of (nodeReplicas m) (fst nc) of Some r \<Rightarrow> r | None \<Rightarrow> 0))
         \<noteq> (case map_of (nodeReplicas m) (fst nc) of Some r \<Rightarrow> r | None \<Rightarrow> 0)
         \<and> fst nc \<noteq> []
      then None else Some m)"
  by (simp add: rebalance_step_def ring_Remove_held Let_def)

lemma rebalance_step_None [simp]: "rebalance_step scaled tot nodes nc None = None"
  by (simp add: rebalance_step_def)

lemma fold_rebalance_step_None [simp]:
  "fold (rebalance_step scaled tot nodes) xs None = None"
  by (induction xs) simp_all

lemma fold_rebalance_step_cases:
  "fold (rebalance_step scaled tot nodes) xs (Some m) = Some m
   \<or> fold (rebalance_step scaled tot nodes) xs (Some m) = None"
  by (induction xs) (simp_all add: rebalance_step_Some)

lemma fold_rebalance_step_changed:
  assumes "(node, count) \<in> set xs" and "node \<noteq> []"
    and "clampReplicas (config m)
           (scaled tot nodes count
              (case map_of (nodeReplicas m) node of Some r \<Rightarrow> r | None \<Rightarrow> 0))
         \<noteq> (case map_of (nodeReplicas m) node of Some r \<Rightarrow> r | None \<Rightarrow> 0)"
  shows "fold (rebalance_step scaled tot nodes) xs (Some m) = None"
  using assms by (induction xs) (auto simp: rebalance_step_Some)

lemma rebalanceNodes_cases:
  "rebalanceNodes scaled m = None
   \<or> rebalanceNodes scaled m
        = Some (m\<lparr>nodeCounts := map (\<lambda>nc. (fst nc, 0)) (nodeCounts m),
                  totalRequests := 0, keys := sort (keys m)\<rparr>)"
  using fold_rebalance_step_cases
          [of scaled "totalRequests m" "length (nodeReplicas m)" "nodeCounts m" m]
  by (auto simp: rebalanceNodes_def)

lemma rebalanceNodes_changed:
  assumes "(node, count) \<in> set (nodeCounts m)" and "node \<noteq> []"
    and "clampReplicas (config m)
           (scaled (totalRequests m) (length (nodeReplicas m)) count
              (case map_of (nodeReplicas m) node of Some r \<Rightarrow> r | None \<Rightarrow> 0))
         \<noteq> (case map_of (nodeReplicas m) node of Some r \<Rightarrow> r | None \<Rightarrow> 0)"
  shows "rebalanceNodes scaled m = None"
  using fold_rebalance_step_changed
          [where xs = "nodeCounts m" and m = m and scaled = scaled and node = node
             and count = count and tot = "totalRequests m"
             and nodes = "length (nodeReplicas m)"] assms
  by (simp add: rebalanceNodes_def)

text \<open>
  Claim C8. When \<^verbatim>\<open>totalRequests < 1000\<close> the check changes nothing; otherwise every node
  gets the new replica count \<open>floor (r / loadRatio)\<close> or \<open>floor (r * (2 - loadRatio))\<close>,
  clamped to \<^verbatim>\<open>[MinReplicas, MaxReplicas]\<close>, and a node whose count is unchanged keeps its
  replicas. In the source, for every outcome of the float computations:

  \<^item> with \<^verbatim>\<open>totalRequests < 1000\<close> the check returns and the ring is as before;
  \<^item> with \<^verbatim>\<open>totalRequests \<ge> 1000\<close> and the threshold exceeded, if the clamped new count
    of a node with a name other than \<^verbatim>\<open>""\<close> differs from its current count, the check
    does not return: \<^verbatim>\<open>rebalanceNodes\<close> calls \<^verbatim>\<open>m.Remove(node)\<close> while it holds \<^verbatim>\<open>m.mu\<close>,
    and \<^verbatim>\<open>Remove\<close> locks \<^verbatim>\<open>m.mu\<close> again;
  \<^item> so whenever the check returns, \<^verbatim>\<open>nodeReplicas\<close>, \<^verbatim>\<open>hashMap\<close> and the set of keys are
    as before: no node ever gets a new replica count.
\<close>

theorem checkAndRebalance_never_resizes:
  "(totalRequests m < 1000 \<longrightarrow> checkAndRebalance exceeds scaled m = Some m)
   \<and> (1000 \<le> totalRequests m \<and> exceeds m \<and> (node, count) \<in> set (nodeCounts m)
        \<and> node \<noteq> []
        \<and> clampReplicas (config m)
             (scaled (totalRequests m) (length (nodeReplicas m)) count
                (case map_of (nodeReplicas m) node of Some r \<Rightarrow> r | None \<Rightarrow> 0))
           \<noteq> (case map_of (nodeReplicas m) node of Some r \<Rightarrow> r | None \<Rightarrow> 0)
        \<longrightarrow> checkAndRebalance exceeds scaled m = None)
   \<and> (checkAndRebalance exceeds scaled m = Some m' \<longrightarrow>
        nodeReplicas m' = nodeReplicas m \<and> hashMap m' = hashMap m
        \<and> set (keys m') = set (keys m))"
proof (intro conjI impI)
  assume "totalRequests m < 1000"
  then show "checkAndRebalance exceeds scaled m = Some m"
    by (simp add: checkAndRebalance_def)
next
  assume a: "1000 \<le> totalRequests m \<and> exceeds m \<and> (node, count) \<in> set (nodeCounts m)
        \<and> node \<noteq> []
        \<and> clampReplicas (config m)
             (scaled (totalRequests m) (length (nodeReplicas m)) count
                (case map_of (nodeReplicas m) node of Some r \<Rightarrow> r | None \<Rightarrow> 0))
           \<noteq> (case map_of (nodeReplicas m) node of Some r \<Rightarrow> r | None \<Rightarrow> 0)"
  then have "rebalanceNodes scaled m = None"
    using rebalanceNodes_changed [of node count m scaled] by blast
  with a show "checkAndRebalance exceeds scaled m = None"
    by (simp add: checkAndRebalance_def)
next
  assume r: "checkAndRebalance exceeds scaled m = Some m'"
  from rebalanceNodes_cases [of scaled m] r
  have "m' = m \<or> m' = m\<lparr>nodeCounts := map (\<lambda>nc. (fst nc, 0)) (nodeCounts m),
                           totalRequests := 0, keys := sort (keys m)\<rparr>"
    by (auto simp: checkAndRebalance_def split: if_splits)
  then show "nodeReplicas m' = nodeReplicas m" by auto
  from \<open>m' = m \<or> m' = m\<lparr>nodeCounts := map (\<lambda>nc. (fst nc, 0)) (nodeCounts m),
                           totalRequests := 0, keys := sort (keys m)\<rparr>\<close>
  show "hashMap m' = hashMap m" by auto
  from \<open>m' = m \<or> m' = m\<lparr>nodeCounts := map (\<lambda>nc. (fst nc, 0)) (nodeCounts m),
                           totalRequests := 0, keys := sort (keys m)\<rparr>\<close>
  show "set (keys m') = set (keys m)" by auto
qed

theorem checkAndRebalance_never_resizes_witness:
  "(let cfg = \<lparr>DefaultReplicas = 2, MinReplicas = 1, MaxReplicas = 10,
               HashFunc = (\<lambda>s. hashBKRD s mod 100)\<rparr>;
        r0 = fst (ring_Add (ring_New cfg) [''A'', ''B'']);
        r1 = r0\<lparr>nodeCounts := [(''A'', 600), (''B'', 399)], totalRequests := 999\<rparr>;
        r2 = r0\<lparr>nodeCounts := [(''A'', 1500), (''B'', 500)], totalRequests := 2000\<rparr>;
        r3 = r2\<lparr>config := cfg\<lparr>MinReplicas := 2, MaxReplicas := 2\<rparr>\<rparr>
    in totalRequests r1 < 1000
       \<and> checkAndRebalance (\<lambda>r. True) spec_newReplicas r1 = Some r1
       \<and> 1000 \<le> totalRequests r2 \<and> (''A'', 1500) \<in> set (nodeCounts r2) \<and> ''A'' \<noteq> []
       \<and> length (nodeReplicas r2) = 2 \<and> map_of (nodeReplicas r2) ''A'' = Some 2
       \<and> clampReplicas (config r2) (spec_newReplicas 2000 2 1500 2) = 1
       \<and> checkAndRebalance (\<lambda>r. True) spec_newReplicas r2 = None
       \<and> map_option snd (ring_Remove False r2 ''A'') = Some None
       \<and> map_option nodeCounts (checkAndRebalance (\<lambda>r. True) spec_newReplicas r3)
           = Some [(''A'', 0), (''B'', 0)]
       \<and> map_option nodeReplicas (checkAndRebalance (\<lambda>r. True) spec_newReplicas r3)
           = Some (nodeReplicas r3))"
proof -
  let ?cfg = "\<lparr>DefaultReplicas = 2, MinReplicas = 1, MaxReplicas = 10,
               HashFunc = (\<lambda>s. hashBKRD s mod 100)\<rparr>"
  let ?r0 = "fst (ring_Add (ring_New ?cfg) [''A'', ''B''])"
  let ?r1 = "?r0\<lparr>nodeCounts := [(''A'', 600), (''B'', 399)], totalRequests := 999\<rparr>"
  let ?r2 = "?r0\<lparr>nodeCounts := [(''A'', 1500), (''B'', 500)], totalRequests := 2000\<rparr>"
  let ?r3 = "?r2\<lparr>config := ?cfg\<lparr>MinReplicas := 2, MaxReplicas := 2\<rparr>\<rparr>"
  have a: "totalRequests ?r1 < 1000" by simp
  have b: "1000 \<le> totalRequests ?r2" by simp
  have c: "(''A'', 1500) \<in> set (nodeCounts ?r2) \<and> ''A'' \<noteq> []" by simp
  have d: "length (nodeReplicas ?r2) = 2" by code_simp
  have e: "map_of (nodeReplicas ?r2) ''A'' = Some 2" by code_simp
  have f: "clampReplicas (config ?r2) (spec_newReplicas 2000 2 1500 2) = 1" by code_simp
  have g: "map_option snd (ring_Remove False ?r2 ''A'') = Some None" by code_simp
  have h: "map_option nodeCounts (checkAndRebalance (\<lambda>r. True) spec_newReplicas ?r3)
             = Some [(''A'', 0), (''B'', 0)]" by code_simp
  from checkAndRebalance_never_resizes
         [where m = ?r1 and exceeds = "\<lambda>r. True" and scaled = spec_newReplicas] a
  have A: "checkAndRebalance (\<lambda>r. True) spec_newReplicas ?r1 = Some ?r1" by blast
  have f': "clampReplicas (config ?r2)
              (spec_newReplicas (totalRequests ?r2) (length (nodeReplicas ?r2)) 1500
                 (case map_of (nodeReplicas ?r2) ''A'' of Some r \<Rightarrow> r | None \<Rightarrow> 0))
            \<noteq> (case map_of (nodeReplicas ?r2) ''A'' of Some r \<Rightarrow> r | None \<Rightarrow> 0)"
    unfolding d e using f by simp
  from checkAndRebalance_never_resizes
         [where m = ?r2 and exceeds = "\<lambda>r. True" and scaled = spec_newReplicas
            and node = "''A''" and count = 1500] b c f'
  have B: "checkAndRebalance (\<lambda>r. True) spec_newReplicas ?r2 = None" by blast
  from h obtain m' where
    m': "checkAndRebalance (\<lambda>r. True) spec_newReplicas ?r3 = Some m'" by auto
  from checkAndRebalance_never_resizes
         [where m = ?r3 and exceeds = "\<lambda>r. True" and scaled = spec_newReplicas
            and m' = m'] m'
  have "nodeReplicas m' = nodeReplicas ?r3" by blast
  with m' have C: "map_option nodeReplicas (checkAndRebalance (\<lambda>r. True) spec_newReplicas ?r3)
           = Some (nodeReplicas ?r3)" by simp
  from a A b c d e f B g h C show ?thesis unfolding Let_def by blast
qed
section \<open>Properties of the cache wrapper and the cache group\<close>









lemma NewCache_ok:
  assumes "BucketCount copts \<le> 32768"
    and "CapPerBucket copts < 65535" and "Level2Cap copts < 65535"
  shows "Cache_ok (NewCache copts)"
  using assms by (simp add: Cache_ok_def NewCache_def)

text \<open>
  Claim C9. \<^verbatim>\<open>Group.Set\<close> returns \<^verbatim>\<open>ErrGroupClosed\<close> when the group is closed, else
  \<^verbatim>\<open>ErrKeyRequired\<close> when the key is empty, else \<^verbatim>\<open>ErrValueRequired\<close> when the value is
  empty; in each of these cases the group, with its local store, is returned as it was and
  no task is started.
\<close>

theorem Group_Set_errors:
  assumes "group_closed g \<or> ky = [] \<or> val = []"
  shows "Group_Set g ctx ky val tnow tuntil clock =
           Some (g, Some (if group_closed g then ErrGroupClosed
                          else if ky = [] then ErrKeyRequired else ErrValueRequired), None)"
  using assms by (auto simp: Group_Set_def)

theorem Group_Set_errors_witness:
  "(let g = \<lparr>name = ''g'',
             mainCache = NewCache \<lparr>CacheType = ''lru'', MaxBytes = 100, BucketCount = 1,
                                   CapPerBucket = 2, Level2Cap = 2, CleanupTime = 0,
                                   OnEvicted = False\<rparr>,
             peers = Some (\<lambda>k. (1, True, False)), expiration = 0, group_closed = False\<rparr>
    in (group_closed g \<or> ''k'' = [] \<or> ([]::string) = [])
       \<and> Group_Set g [] ''k'' [] 0 0 0 = Some (g, Some ErrValueRequired, None)
       \<and> Group_Set g [] [] ''v'' 0 0 0 = Some (g, Some ErrKeyRequired, None)
       \<and> Group_Set (g\<lparr>group_closed := True\<rparr>) [] [] [] 0 0 0
            = Some (g\<lparr>group_closed := True\<rparr>, Some ErrGroupClosed, None))"
proof -
  let ?g = "\<lparr>name = ''g'',
             mainCache = NewCache \<lparr>CacheType = ''lru'', MaxBytes = 100, BucketCount = 1,
                                   CapPerBucket = 2, Level2Cap = 2, CleanupTime = 0,
                                   OnEvicted = False\<rparr>,
             peers = Some (\<lambda>k. (1::nat, True, False)), expiration = 0, group_closed = False\<rparr>"
  have h1: "group_closed ?g \<or> ''k'' = [] \<or> ([]::string) = []" by simp
  have h2: "group_closed ?g \<or> ([]::string) = [] \<or> ''v'' = []" by simp
  have h3: "group_closed (?g\<lparr>group_closed := True\<rparr>) \<or> ([]::string) = [] \<or> ([]::string) = []"
    by simp
  from Group_Set_errors [OF h1, of "[]" 0 0 0] Group_Set_errors [OF h2, of "[]" 0 0 0]
       Group_Set_errors [OF h3, of "[]" 0 0 0]
  show ?thesis unfolding Let_def by simp
qed







lemma live_Create: "live (Create cap) ky = None"
  by (simp add: live_def Create_def)

lemma levels_empty:
  assumes "\<forall>sh \<in> set (caches s). live (fst sh) ky = None \<and> live (snd sh) ky = None"
  shows "admission s ky = None" and "main_level s ky = None"
  using assms by (auto simp: admission_def main_level_def shard_def)

lemma newLRU2Cache_empty:
  "admission (newLRU2Cache buckets cap0 cap1 cb) ky = None"
  "main_level (newLRU2Cache buckets cap0 cap1 cb) ky = None"
  by (rule levels_empty, simp add: newLRU2Cache_def Let_def live_Create)+

lemma store_holds_NewStore: "store_holds (Some (NewStore t copts)) ky = False"
  by (simp add: store_holds_def NewStore_def newLRUCache_def newLRU2Cache_empty)

text \<open>
  Claim C10, amended. With \<^verbatim>\<open>time.Until(t) \<le> 0\<close>, \<^verbatim>\<open>AddWithExpiration\<close> inserts, updates
  and deletes nothing: the store holds an entry for a key after the call exactly when it did
  before. A closed cache and a cache that is initialized are left exactly as they were; on
  an open cache that is not initialized yet the call constructs the empty store
  (\<^verbatim>\<open>ensureInitialized\<close> runs before the expiration is looked at).
\<close>

theorem Cache_AddWithExpiration_not_future:
  assumes "expirationTime - now \<le> 0" and "initialized c \<longleftrightarrow> store c \<noteq> None"
  shows "\<exists>c'. Cache_AddWithExpiration c ky v expirationTime now clock = Some c'
           \<and> (cache_closed c \<or> initialized c \<longrightarrow> c' = c)
           \<and> (\<not> cache_closed c \<and> \<not> initialized c \<longrightarrow>
                c' = c\<lparr>store := Some (NewStore (CacheType (opts c)) (opts c)),
                       initialized := True\<rparr>)
           \<and> (\<forall>k. store_holds (store c') k = store_holds (store c) k)"
proof (cases "cache_closed c \<or> initialized c")
  case True
  with assms(1) have "Cache_AddWithExpiration c ky v expirationTime now clock = Some c"
    by (auto simp: Cache_AddWithExpiration_def ensureInitialized_def Let_def)
  with True show ?thesis by auto
next
  case False
  with assms(2) have n: "store c = None" by simp
  let ?c' = "c\<lparr>store := Some (NewStore (CacheType (opts c)) (opts c)), initialized := True\<rparr>"
  from False assms(1) have "Cache_AddWithExpiration c ky v expirationTime now clock = Some ?c'"
    by (simp add: Cache_AddWithExpiration_def ensureInitialized_def Let_def)
  moreover have "\<forall>k. store_holds (store ?c') k = store_holds (store c) k"
    using n by (simp add: store_holds_NewStore) (simp add: store_holds_def)
  ultimately show ?thesis using False by simp
qed

text \<open>
  Claim C10, as stated: the underlying store is left completely unchanged. On a new cache,
  whose \<^verbatim>\<open>store\<close> is nil, \<^verbatim>\<open>AddWithExpiration\<close> with an expiration instant in the past
  returns with the store constructed.
\<close>

theorem Cache_AddWithExpiration_constructs_store:
  "(let copts = \<lparr>CacheType = ''lru'', MaxBytes = 100, BucketCount = 1, CapPerBucket = 2,
                 Level2Cap = 2, CleanupTime = 0, OnEvicted = False\<rparr>;
        c = NewCache copts
    in (5::int) - 10 \<le> 0
       \<and> store c = None
       \<and> map_option store (Cache_AddWithExpiration c ''k'' (ByteView ''v'') 5 10 10)
           = Some (Some (LRUStore (newLRUCache 100 False)))
       \<and> map_option store (Cache_AddWithExpiration c ''k'' (ByteView ''v'') 5 10 10)
           \<noteq> Some (store c))"
  by (simp add: Cache_AddWithExpiration_def ensureInitialized_def NewCache_def NewStore_def
                Let_def)

theorem Cache_AddWithExpiration_not_future_witness:
  "(let copts = \<lparr>CacheType = ''lru'', MaxBytes = 100, BucketCount = 1, CapPerBucket = 2,
                 Level2Cap = 2, CleanupTime = 0, OnEvicted = False\<rparr>;
        c = the (Cache_Add (NewCache copts) ''a'' (ByteView ''x'') 0)
    in (5::int) - 10 \<le> 0 \<and> (initialized c \<longleftrightarrow> store c \<noteq> None) \<and> initialized c
       \<and> store_holds (store c) ''a''
       \<and> Cache_AddWithExpiration c ''a'' (ByteView ''v'') 5 10 10 = Some c)"
proof -
  let ?o = "\<lparr>CacheType = ''lru'', MaxBytes = 100, BucketCount = 1, CapPerBucket = 2,
                 Level2Cap = 2, CleanupTime = 0, OnEvicted = False\<rparr>"
  let ?c = "the (Cache_Add (NewCache ?o) ''a'' (ByteView ''x'') 0)"
  have h1: "(5::int) - 10 \<le> 0" by simp
  have i: "initialized ?c" by code_simp
  have s: "store ?c \<noteq> None" by code_simp
  have hd: "store_holds (store ?c) ''a''" by code_simp
  from i s have h2: "initialized ?c \<longleftrightarrow> store ?c \<noteq> None" by simp
  from Cache_AddWithExpiration_not_future [OF h1 h2, of "''a''" "ByteView ''v''" 10] i
  have "Cache_AddWithExpiration ?c ''a'' (ByteView ''v'') 5 10 10 = Some ?c" by auto
  with h1 h2 i hd show ?thesis unfolding Let_def by blast
qed

section \<open>Properties of the single-flight group\<close>

lemmas sf_eval =
  sf_run_def sf_init_def sf_step_def goto_def call_at_def sf_observe_def Let_def

text \<open>
  Two callers of \<^verbatim>\<open>Do\<close> for the same key, the second arriving after the first has stored
  its record: the second finds the record, waits at \<^verbatim>\<open>c.wg.Wait()\<close> until the first has
  run \<^verbatim>\<open>fn\<close>, and both return the result of the one invocation.
\<close>

lemma Do_coalesces_after_Store:
  "(sf_observe (sf_run fn [0, 0, 0, 1, 1] (sf_init [ky, ky])),
    sf_observe (sf_run fn [0, 0, 0, 1, 1, 0, 0, 1, 1, 0, 0] (sf_init [ky, ky])))
   = (Some (0, [L32 0, L23 0]), Some (1, [Returned (fn 0), Returned (fn 0)]))"
  by (simp add: sf_eval)

text \<open>
  A caller that starts after the first one has returned finds no record and runs \<^verbatim>\<open>fn\<close>
  again.
\<close>

lemma Do_after_return_reruns:
  "(sf_observe (sf_run fn [0, 0, 0, 0, 0, 0, 0] (sf_init [ky, ky])),
    sf_observe (sf_run fn [0, 0, 0, 0, 0, 0, 0, 1, 1, 1, 1, 1, 1, 1] (sf_init [ky, ky])))
   = (Some (1, [Returned (fn 0), L21]), Some (2, [Returned (fn 0), Returned (fn 1)]))"
  by (simp add: sf_eval)

text \<open>
  A caller that starts after the first one has run \<^verbatim>\<open>fn\<close> and \<^verbatim>\<open>c.wg.Done()\<close>, but before
  its \<^verbatim>\<open>g.m.Delete(key)\<close>, still finds the record: it returns the first result and
  \<^verbatim>\<open>fn\<close> is not run again.
\<close>

lemma Do_before_Delete_reuses_result:
  "(sf_observe (sf_run fn [0, 0, 0, 0, 0] (sf_init [ky, ky])),
    sf_observe (sf_run fn [0, 0, 0, 0, 0, 1, 1, 1, 0, 0] (sf_init [ky, ky])))
   = (Some (1, [L35 0, L21]), Some (1, [Returned (fn 0), Returned (fn 0)]))"
  by (simp add: sf_eval)

text \<open>
  Claim C4. For every set of concurrent \<^verbatim>\<open>Do(k, fn)\<close> calls that overlap one in-flight
  invocation, \<^verbatim>\<open>fn\<close> is invoked exactly once and every caller returns the result of that
  invocation. In the source \<^verbatim>\<open>g.m.Load(key)\<close> (line 21) and \<^verbatim>\<open>g.m.Store(key, c)\<close> (line 30)
  are two operations: when two callers of \<^verbatim>\<open>Do\<close> for the same key take their steps in
  turn, both find no record (after one step each both are at line 28), both store a
  record and both call \<^verbatim>\<open>fn\<close>. \<^verbatim>\<open>fn\<close> is invoked twice, the first caller returns the result
  of the first invocation and the second caller the result of the second.
\<close>

theorem Do_invokes_fn_twice:
  "(sf_observe (sf_run fn [0, 1] (sf_init [ky, ky])),
    sf_observe (sf_run fn [0, 1, 0, 1, 0, 1, 0, 1, 0, 1, 0, 1, 0, 1] (sf_init [ky, ky])))
   = (Some (0, [L28, L28]), Some (2, [Returned (fn 0), Returned (fn 1)]))"
  by (simp add: sf_eval)

end
